theory Spec2Isabelle
  imports Main "HOL-Library.Word"
begin


section \<open>The payload splitter of \<open>pkg/services/object_manager/transformer\<close>\<close>

text \<open>
  A shallow embedding of \<open>transformer.go\<close>: the \<open>payloadSizeLimiter\<close> cuts the payload
  of one logical object into physical objects of at most \<open>maxSize\<close> bytes, hands every
  physical object to a fresh \<open>ObjectTarget\<close> and, when more than one object was cut,
  finishes with a parent header and a linking object.
\<close>

subsection \<open>Data\<close>

type_synonym byte = "8 word"
type_synonym bytes = "byte list"

text \<open>Identifiers of objects, containers and owners are opaque values of the SDK.\<close>

type_synonym oid = nat
type_synonym cid = nat
type_synonym ownerID = nat
type_synonym attribute = "string \<times> string"

text \<open>\<open>pkg.Checksum\<close>: a typed digest, set by \<open>SetSHA256\<close> or \<open>SetTillichZemor\<close>.\<close>

datatype checksum = SHA256 bytes | TillichZemor bytes

text \<open>
  Modelled from the spec: the metadata record of a physical object (\<open>object.RawObject\<close>,
  declared outside the files at hand). It carries the fields the splitter reads and writes:
  identifier, container, owner, attributes, previous sibling, parent, children, the two
  payload checksums and the payload size. The selectors are the getters; a field that was
  never set reads as \<open>None\<close>, \<open>[]\<close> or \<open>0\<close>.
\<close>

datatype rawObject = RawObject
  (GetID: "oid option")
  (GetContainerID: "cid option")
  (GetOwnerID: "ownerID option")
  (GetAttributes: "attribute list")
  (GetPreviousID: "oid option")
  (GetParent: "rawObject option")
  (GetChildren: "oid list")
  (GetPayloadChecksum: "checksum option")
  (GetPayloadHomomorphicHash: "checksum option")
  (GetPayloadSize: nat)

definition NewRaw :: rawObject where
  "NewRaw = RawObject None None None [] None None [] None None 0"

definition SetID :: "oid option \<Rightarrow> rawObject \<Rightarrow> rawObject" where
  "SetID v obj = RawObject v (GetContainerID obj) (GetOwnerID obj) (GetAttributes obj)
     (GetPreviousID obj) (GetParent obj) (GetChildren obj) (GetPayloadChecksum obj)
     (GetPayloadHomomorphicHash obj) (GetPayloadSize obj)"

definition SetContainerID :: "cid option \<Rightarrow> rawObject \<Rightarrow> rawObject" where
  "SetContainerID v obj = RawObject (GetID obj) v (GetOwnerID obj) (GetAttributes obj)
     (GetPreviousID obj) (GetParent obj) (GetChildren obj) (GetPayloadChecksum obj)
     (GetPayloadHomomorphicHash obj) (GetPayloadSize obj)"

definition SetOwnerID :: "ownerID option \<Rightarrow> rawObject \<Rightarrow> rawObject" where
  "SetOwnerID v obj = RawObject (GetID obj) (GetContainerID obj) v (GetAttributes obj)
     (GetPreviousID obj) (GetParent obj) (GetChildren obj) (GetPayloadChecksum obj)
     (GetPayloadHomomorphicHash obj) (GetPayloadSize obj)"

definition SetAttributes :: "attribute list \<Rightarrow> rawObject \<Rightarrow> rawObject" where
  "SetAttributes v obj = RawObject (GetID obj) (GetContainerID obj) (GetOwnerID obj) v
     (GetPreviousID obj) (GetParent obj) (GetChildren obj) (GetPayloadChecksum obj)
     (GetPayloadHomomorphicHash obj) (GetPayloadSize obj)"

definition SetPreviousID :: "oid \<Rightarrow> rawObject \<Rightarrow> rawObject" where
  "SetPreviousID v obj = RawObject (GetID obj) (GetContainerID obj) (GetOwnerID obj)
     (GetAttributes obj) (Some v) (GetParent obj) (GetChildren obj) (GetPayloadChecksum obj)
     (GetPayloadHomomorphicHash obj) (GetPayloadSize obj)"

definition SetParent :: "rawObject \<Rightarrow> rawObject \<Rightarrow> rawObject" where
  "SetParent v obj = RawObject (GetID obj) (GetContainerID obj) (GetOwnerID obj)
     (GetAttributes obj) (GetPreviousID obj) (Some v) (GetChildren obj) (GetPayloadChecksum obj)
     (GetPayloadHomomorphicHash obj) (GetPayloadSize obj)"

definition SetChildren :: "oid list \<Rightarrow> rawObject \<Rightarrow> rawObject" where
  "SetChildren v obj = RawObject (GetID obj) (GetContainerID obj) (GetOwnerID obj)
     (GetAttributes obj) (GetPreviousID obj) (GetParent obj) v (GetPayloadChecksum obj)
     (GetPayloadHomomorphicHash obj) (GetPayloadSize obj)"

definition SetPayloadChecksum :: "checksum \<Rightarrow> rawObject \<Rightarrow> rawObject" where
  "SetPayloadChecksum v obj = RawObject (GetID obj) (GetContainerID obj) (GetOwnerID obj)
     (GetAttributes obj) (GetPreviousID obj) (GetParent obj) (GetChildren obj) (Some v)
     (GetPayloadHomomorphicHash obj) (GetPayloadSize obj)"

definition SetPayloadHomomorphicHash :: "checksum \<Rightarrow> rawObject \<Rightarrow> rawObject" where
  "SetPayloadHomomorphicHash v obj = RawObject (GetID obj) (GetContainerID obj) (GetOwnerID obj)
     (GetAttributes obj) (GetPreviousID obj) (GetParent obj) (GetChildren obj)
     (GetPayloadChecksum obj) (Some v) (GetPayloadSize obj)"

definition SetPayloadSize :: "nat \<Rightarrow> rawObject \<Rightarrow> rawObject" where
  "SetPayloadSize v obj = RawObject (GetID obj) (GetContainerID obj) (GetOwnerID obj)
     (GetAttributes obj) (GetPreviousID obj) (GetParent obj) (GetChildren obj)
     (GetPayloadChecksum obj) (GetPayloadHomomorphicHash obj) v"

text \<open>
  Modelled from the spec: \<open>AccessIdentifiers\<close>, the result of closing a sink; the splitter
  reads its \<open>SelfID\<close> only.
\<close>

datatype accessIdentifiers = AccessIdentifiers (SelfID: oid)

subsection \<open>Failures\<close>

text \<open>
  A Go \<open>error\<close> is either the error of a sink or an error wrapped with a message by
  \<open>errors.Wrap\<close>. A panic is not an error: it is kept apart, so that a panic is never
  mistaken for a returned error.
\<close>

datatype error = SinkError string | Wrap error string

datatype panic = WrongChecksumLength nat nat | NilDereference | DivideByZero

datatype failure = Error error | Panic panic

text \<open>\<open>errors.Wrap(err, msg)\<close> on the error of a callee; a panic passes through.\<close>

fun wrapped :: "string \<Rightarrow> failure \<Rightarrow> failure" where
  "wrapped msg (Error e) = Error (Wrap e msg)"
| "wrapped msg (Panic p) = Panic p"

subsection \<open>Hashers\<close>

text \<open>
  A \<open>hash.Hash\<close> is the algorithm and the bytes written to it so far; \<open>sha256.New()\<close> is
  \<open>Sha256 []\<close> and \<open>tz.New()\<close> is \<open>Tz []\<close>. Writing to a hash never fails, and \<open>Sum(nil)\<close>
  does not change it.
\<close>

datatype hash = Sha256 bytes | Tz bytes

fun hash_Write :: "bytes \<Rightarrow> hash \<Rightarrow> hash" where
  "hash_Write p (Sha256 bs) = Sha256 (bs @ p)"
| "hash_Write p (Tz bs) = Tz (bs @ p)"

text \<open>The two closures of \<open>initializeCurrent\<close>, named by the field they set.\<close>

datatype checksumWriter = WriteSHA256 | WriteTillichZemor

record payloadChecksumHasher =
  hasher :: hash
  checksumWriter :: checksumWriter

subsection \<open>Sinks and the world outside the splitter\<close>

text \<open>
  Modelled from the spec: the Object Sink (\<open>ObjectTarget\<close>, declared outside the files at
  hand). A sink receives one header, payload bytes in order, and a close. The world counts
  the sinks the factory has made and records every object a sink has closed: the sink's
  number, the header it was given, the payload streamed to it, the identifiers it
  returned, and the header as the sink left it when it closed.
\<close>

record sink =
  sinkNo :: nat
  sinkHeader :: "rawObject option"
  sinkPayload :: bytes

record emission =
  eSink :: nat
  eHeader :: "rawObject option"
  ePayload :: bytes
  eIDs :: accessIdentifiers
  eLeft :: rawObject

record world =
  created :: nat
  emitted :: "emission list"

type_synonym targetInitializer = "world \<Rightarrow> sink \<times> world"

text \<open>
  The collaborators the splitter is linked against: the two digest functions
  (\<open>crypto/sha256\<close> and \<open>tzhash\<close>, as the digest of all the bytes written), and the
  behaviour of the sinks. A sink holds the pointer to the header it is given, so what it
  writes through the pointer is visible to the splitter: \<open>onWriteHeader\<close> and \<open>onClose\<close>
  return the header as the sink leaves it. \<open>onWrite\<close> sees the sink's number, the bytes
  it already holds and the new bytes.
\<close>

record collaborators =
  sha256_Sum :: "bytes \<Rightarrow> bytes"
  tz_Sum :: "bytes \<Rightarrow> bytes"
  onWriteHeader :: "nat \<Rightarrow> rawObject \<Rightarrow> error + rawObject"
  onWrite :: "nat \<Rightarrow> bytes \<Rightarrow> bytes \<Rightarrow> error option"
  onClose :: "nat \<Rightarrow> rawObject \<Rightarrow> bytes \<Rightarrow> error + accessIdentifiers \<times> rawObject"

fun hash_Sum :: "collaborators \<Rightarrow> hash \<Rightarrow> bytes" where
  "hash_Sum env (Sha256 bs) = sha256_Sum env bs"
| "hash_Sum env (Tz bs) = tz_Sum env bs"

definition emptyWorld :: world where
  "emptyWorld = \<lparr>created = 0, emitted = []\<rparr>"

text \<open>The factory that makes one fresh sink per call.\<close>

definition newTarget :: targetInitializer where
  "newTarget w =
     (\<lparr>sinkNo = created w, sinkHeader = None, sinkPayload = []\<rparr>, w\<lparr>created := Suc (created w)\<rparr>)"

definition sink_WriteHeader ::
  "collaborators \<Rightarrow> sink \<Rightarrow> rawObject \<Rightarrow> error + sink \<times> rawObject" where
  "sink_WriteHeader env t obj =
     (case onWriteHeader env (sinkNo t) obj of
        Inl e \<Rightarrow> Inl e
      | Inr obj' \<Rightarrow> Inr (t\<lparr>sinkHeader := Some obj\<rparr>, obj'))"

definition sink_Write :: "collaborators \<Rightarrow> sink \<Rightarrow> bytes \<Rightarrow> error + sink" where
  "sink_Write env t p =
     (case onWrite env (sinkNo t) (sinkPayload t) p of
        Some e \<Rightarrow> Inl e
      | None \<Rightarrow> Inr (t\<lparr>sinkPayload := sinkPayload t @ p\<rparr>))"

definition sink_Close ::
  "collaborators \<Rightarrow> sink \<Rightarrow> rawObject \<Rightarrow> world \<Rightarrow> error + accessIdentifiers \<times> rawObject \<times> world" where
  "sink_Close env t obj w =
     (case onClose env (sinkNo t) obj (sinkPayload t) of
        Inl e \<Rightarrow> Inl e
      | Inr (ids, obj') \<Rightarrow>
          Inr (ids, obj',
               w\<lparr>emitted := emitted w @
                    [\<lparr>eSink = sinkNo t, eHeader = sinkHeader t,
                      ePayload = sinkPayload t, eIDs = ids, eLeft = obj'\<rparr>]\<rparr>))"

subsection \<open>The splitter\<close>

text \<open>
  The struct \<open>payloadSizeLimiter\<close>. \<open>maxSize\<close> and \<open>written\<close> are \<open>uint64\<close>: natural
  numbers, with the wrap-around of \<open>written += cut\<close> written out in \<open>writeChunk\<close>. A nil
  pointer, interface or function value is \<open>None\<close>. The field \<open>chunkWriter\<close> is the
  \<open>io.MultiWriter\<close> over the pointers \<open>target\<close>, \<open>currentHashers\<close> and \<open>parentHashers\<close> as
  they stand when \<open>initializeCurrent\<close> returns; none of the three is assigned anywhere
  else before the next \<open>initializeCurrent\<close>, so a write to \<open>chunkWriter\<close> is a write to
  the three fields (\<open>chunkWriter_Write\<close> below).
\<close>

record payloadSizeLimiter =
  maxSize :: nat
  written :: nat
  targetInit :: "targetInitializer option"
  target :: "sink option"
  current :: "rawObject option"
  parent :: "rawObject option"
  currentHashers :: "payloadChecksumHasher list"
  parentHashers :: "payloadChecksumHasher list"
  previous :: "oid list"

definition NewPayloadSizeLimiter :: "nat \<Rightarrow> targetInitializer option \<Rightarrow> payloadSizeLimiter" where
  "NewPayloadSizeLimiter mx ti =
     \<lparr>maxSize = mx, written = 0, targetInit = ti, target = None, current = None,
      parent = None, currentHashers = [], parentHashers = [], previous = []\<rparr>"

definition fromObject :: "rawObject \<Rightarrow> rawObject" where
  "fromObject obj =
     SetAttributes (GetAttributes obj)
       (SetOwnerID (GetOwnerID obj) (SetContainerID (GetContainerID obj) NewRaw))"

text \<open>\<open>WriteHeader\<close> always returns a nil error.\<close>

definition WriteHeader :: "rawObject \<Rightarrow> payloadSizeLimiter \<Rightarrow> payloadSizeLimiter" where
  "WriteHeader hdr s = s\<lparr>current := Some (fromObject hdr)\<rparr>"

text \<open>
  The closures \<open>checksumWriter\<close> capture the splitter \<open>s\<close>, not an object: when called
  they set the checksum on whatever \<open>s.current\<close> is at that moment. The arguments of the
  panic are in the order of the source's \<open>Sprintf\<close>.
\<close>

fun writeChecksum :: "checksumWriter \<Rightarrow> bytes \<Rightarrow> payloadSizeLimiter \<Rightarrow> failure + payloadSizeLimiter" where
  "writeChecksum WriteSHA256 cs s =
     (if length cs \<noteq> 32 then Inl (Panic (WrongChecksumLength (length cs) 32))
      else case current s of
             None \<Rightarrow> Inl (Panic NilDereference)
           | Some c \<Rightarrow> Inr (s\<lparr>current := Some (SetPayloadChecksum (SHA256 cs) c)\<rparr>))"
| "writeChecksum WriteTillichZemor cs s =
     (if length cs \<noteq> 64 then Inl (Panic (WrongChecksumLength (length cs) 64))
      else case current s of
             None \<Rightarrow> Inl (Panic NilDereference)
           | Some c \<Rightarrow> Inr (s\<lparr>current := Some (SetPayloadHomomorphicHash (TillichZemor cs) c)\<rparr>))"

fun writeHashes ::
  "collaborators \<Rightarrow> payloadChecksumHasher list \<Rightarrow> payloadSizeLimiter \<Rightarrow> failure + payloadSizeLimiter" where
  "writeHashes env [] s = Inr s"
| "writeHashes env (h # hs) s =
     (case writeChecksum (checksumWriter h) (hash_Sum env (hasher h)) s of
        Inl f \<Rightarrow> Inl f
      | Inr s' \<Rightarrow> writeHashes env hs s')"

definition initializeCurrent ::
  "payloadSizeLimiter \<times> world \<Rightarrow> failure + payloadSizeLimiter \<times> world" where
  "initializeCurrent sw =
     (case sw of (s, w) \<Rightarrow>
        (case targetInit s of
           None \<Rightarrow> Inl (Panic NilDereference)
         | Some mk \<Rightarrow>
             (case mk w of (t, w') \<Rightarrow>
                Inr (s\<lparr>target := Some t,
                        currentHashers :=
                          [\<lparr>hasher = Sha256 [], checksumWriter = WriteSHA256\<rparr>,
                           \<lparr>hasher = Tz [], checksumWriter = WriteTillichZemor\<rparr>]\<rparr>, w'))))"

definition initialize ::
  "payloadSizeLimiter \<times> world \<Rightarrow> failure + payloadSizeLimiter \<times> world" where
  "initialize sw =
     (case sw of (s, w) \<Rightarrow>
        (let ln = length (previous s) in
         case (if ln > 0 then
                 (case (if ln = 1 then
                          (case current s of
                             None \<Rightarrow> Inl (Panic NilDereference)
                           | Some c \<Rightarrow>
                               Inr (s\<lparr>parent := Some c, parentHashers := currentHashers s,
                                       current := Some (fromObject c)\<rparr>))
                        else Inr s) of
                    Inl f \<Rightarrow> Inl f
                  | Inr s1 \<Rightarrow>
                      (case current s1 of
                         None \<Rightarrow> Inl (Panic NilDereference)
                       | Some c \<Rightarrow>
                           Inr (s1\<lparr>current := Some (SetPreviousID (previous s1 ! (ln - 1)) c)\<rparr>)))
               else Inr s) of
           Inl f \<Rightarrow> Inl f
         | Inr s2 \<Rightarrow> initializeCurrent (s2, w)))"

definition initializeLinking :: "payloadSizeLimiter \<Rightarrow> failure + payloadSizeLimiter" where
  "initializeLinking s =
     (case current s of
        None \<Rightarrow> Inl (Panic NilDereference)
      | Some c \<Rightarrow>
          (case GetParent c of
             None \<Rightarrow> Inl (Panic NilDereference)
           | Some p \<Rightarrow>
               (let par = SetID (GetID p) NewRaw in
                Inr (s\<lparr>current := Some (SetParent par (SetChildren (previous s) (fromObject c)))\<rparr>))))"

text \<open>
  The part of \<open>release\<close> under \<open>if withParent\<close> before the current object is released:
  the parent's hashers are finalized, the parent gets the number of bytes written, and the
  current object gets the parent.
\<close>

definition finalizeParent ::
  "collaborators \<Rightarrow> payloadSizeLimiter \<Rightarrow> failure + payloadSizeLimiter" where
  "finalizeParent env s =
     (case writeHashes env (parentHashers s) s of
        Inl f \<Rightarrow> Inl f
      | Inr s1 \<Rightarrow>
          (case parent s1 of
             None \<Rightarrow> Inl (Panic NilDereference)
           | Some p \<Rightarrow>
               (let p' = SetPayloadSize (written s1) p in
                case current s1 of
                  None \<Rightarrow> Inl (Panic NilDereference)
                | Some c \<Rightarrow> Inr (s1\<lparr>parent := Some p', current := Some (SetParent p' c)\<rparr>))))"

function release ::
  "collaborators \<Rightarrow> bool \<Rightarrow> payloadSizeLimiter \<times> world
     \<Rightarrow> failure + accessIdentifiers \<times> payloadSizeLimiter \<times> world" where
  "release env close (s, w) =
     (let withParent = (close \<and> length (previous s) > 0) in
      case (if withParent then finalizeParent env s else Inr s) of
        Inl f \<Rightarrow> Inl f
      | Inr s1 \<Rightarrow>
      (case writeHashes env (currentHashers s1) s1 of
        Inl f \<Rightarrow> Inl f
      | Inr s2 \<Rightarrow>
      (case target s2 of
        None \<Rightarrow> Inl (Panic NilDereference)
      | Some t \<Rightarrow>
      (case current s2 of
        None \<Rightarrow> Inl (Panic NilDereference)
      | Some c \<Rightarrow>
      (case sink_WriteHeader env t c of
        Inl e \<Rightarrow> Inl (Error (Wrap e ''could not write header''))
      | Inr (t1, c1) \<Rightarrow>
      (case sink_Close env t1 c1 w of
        Inl e \<Rightarrow> Inl (Error (Wrap e ''could not close target''))
      | Inr (ids, c2, w1) \<Rightarrow>
      (let s3 = s2\<lparr>target := Some t1, current := Some c2,
                    previous := previous s2 @ [SelfID ids]\<rparr> in
       if withParent then
         (case initializeLinking s3 of
            Inl f \<Rightarrow> Inl f
          | Inr s4 \<Rightarrow>
         (case initializeCurrent (s4, w1) of
            Inl f \<Rightarrow> Inl f
          | Inr sw5 \<Rightarrow>
         (case release env False sw5 of
            Inl f \<Rightarrow> Inl (wrapped ''could not release linking object'' f)
          | Inr (_, sw6) \<Rightarrow> Inr (ids, sw6))))
       else Inr (ids, s3, w1))))))))"
  by pat_completeness auto
termination
  by (relation "measure (\<lambda>(env, close, sw). if close then 1 else 0)") auto

definition Close ::
  "collaborators \<Rightarrow> payloadSizeLimiter \<times> world
     \<Rightarrow> failure + accessIdentifiers \<times> payloadSizeLimiter \<times> world" where
  "Close env sw = release env True sw"

text \<open>
  \<open>s.chunkWriter.Write\<close>: the multi-writer writes to the sink first and stops at its
  error (or short write); the hashers of the current object and of the parent follow.
\<close>

definition feed :: "bytes \<Rightarrow> payloadChecksumHasher \<Rightarrow> payloadChecksumHasher" where
  "feed p h = h\<lparr>hasher := hash_Write p (hasher h)\<rparr>"

definition chunkWriter_Write ::
  "collaborators \<Rightarrow> bytes \<Rightarrow> payloadSizeLimiter \<times> world \<Rightarrow> failure + payloadSizeLimiter \<times> world" where
  "chunkWriter_Write env p sw =
     (case sw of (s, w) \<Rightarrow>
        (case target s of
           None \<Rightarrow> Inl (Panic NilDereference)
         | Some t \<Rightarrow>
             (case sink_Write env t p of
                Inl e \<Rightarrow> Inl (Error e)
              | Inr t' \<Rightarrow>
                  Inr (s\<lparr>target := Some t',
                          currentHashers := map (feed p) (currentHashers s),
                          parentHashers := map (feed p) (parentHashers s)\<rparr>, w))))"

text \<open>
  \<open>writeChunk\<close>. Each \<open>%\<close> panics on a zero divisor. \<open>uint64(len(chunk))\<close> is exact, a
  length being a non-negative \<open>int\<close>; \<open>written += cut\<close> wraps at \<open>2 ^ 64\<close>.
\<close>

function writeChunk ::
  "collaborators \<Rightarrow> bytes \<Rightarrow> payloadSizeLimiter \<times> world \<Rightarrow> failure + payloadSizeLimiter \<times> world" where
  "writeChunk env chunk (s, w) =
     (if maxSize s = 0 then Inl (Panic DivideByZero)
      else
      case (if written s mod maxSize s = 0 then
              (case (if written s > 0 then
                       (case release env False (s, w) of
                          Inl f \<Rightarrow> Inl (wrapped ''could not release object'' f)
                        | Inr (_, sw') \<Rightarrow> Inr sw')
                     else Inr (s, w)) of
                 Inl f \<Rightarrow> Inl f
               | Inr sw1 \<Rightarrow> initialize sw1)
            else Inr (s, w)) of
        Inl f \<Rightarrow> Inl f
      | Inr (s1, w1) \<Rightarrow>
          (if maxSize s1 = 0 then Inl (Panic DivideByZero)
           else
           let ln = length chunk;
               leftToEdge = maxSize s1 - written s1 mod maxSize s1;
               cut = (if ln > leftToEdge then leftToEdge else ln)
           in
           case chunkWriter_Write env (take cut chunk) (s1, w1) of
             Inl f \<Rightarrow> Inl (wrapped ''could not write chunk to target'' f)
           | Inr (s2, w2) \<Rightarrow>
               (let s3 = s2\<lparr>written := (written s2 + cut) mod 2 ^ 64\<rparr> in
                if ln > leftToEdge then writeChunk env (drop cut chunk) (s3, w2)
                else Inr (s3, w2))))"
  by pat_completeness auto
termination
proof (relation "measure (\<lambda>(env, chunk, sw). length chunk)", goal_cases)
  case 1
  show ?case by simp
next
  case (2 env chunk s w sw1 s1 w1 ln leftToEdge cut sw2 s2 w2 s3)
  have "written s1 mod maxSize s1 < maxSize s1"
    using 2 by simp
  with 2 show ?case by auto
qed

definition Write ::
  "collaborators \<Rightarrow> bytes \<Rightarrow> payloadSizeLimiter \<times> world
     \<Rightarrow> failure + nat \<times> payloadSizeLimiter \<times> world" where
  "Write env p sw =
     (case writeChunk env p sw of
        Inl f \<Rightarrow> Inl f
      | Inr sw' \<Rightarrow> Inr (length p, sw'))"

subsection \<open>A whole stream\<close>

text \<open>
  The input contract: \<open>WriteHeader\<close> once, then the \<open>Write\<close> calls in order, then
  \<open>Close\<close>, on a splitter made by \<open>NewPayloadSizeLimiter\<close> in a world where no sink
  exists yet. A failure ends the stream.
\<close>

fun Writes ::
  "collaborators \<Rightarrow> bytes list \<Rightarrow> payloadSizeLimiter \<times> world \<Rightarrow> failure + payloadSizeLimiter \<times> world" where
  "Writes env [] sw = Inr sw"
| "Writes env (p # ps) sw =
     (case Write env p sw of
        Inl f \<Rightarrow> Inl f
      | Inr (n, sw') \<Rightarrow> Writes env ps sw')"

definition stream ::
  "collaborators \<Rightarrow> nat \<Rightarrow> targetInitializer option \<Rightarrow> rawObject \<Rightarrow> bytes list
     \<Rightarrow> failure + accessIdentifiers \<times> payloadSizeLimiter \<times> world" where
  "stream env mx ti hdr ps =
     (case Writes env ps (WriteHeader hdr (NewPayloadSizeLimiter mx ti), emptyWorld) of
        Inl f \<Rightarrow> Inl f
      | Inr sw \<Rightarrow> Close env sw)"

text \<open>
  A concrete set of collaborators for evaluation: digests that pad or cut the input to the
  digest size, sinks that never fail, leave the header alone and return \<open>100 + n\<close> as the
  identifier of sink \<open>n\<close>.
\<close>

definition plainEnv :: collaborators where
  "plainEnv =
     \<lparr>sha256_Sum = (\<lambda>bs. take 32 (bs @ replicate 32 0)),
      tz_Sum = (\<lambda>bs. take 64 (bs @ replicate 64 0)),
      onWriteHeader = (\<lambda>n obj. Inr obj),
      onWrite = (\<lambda>n held p. None),
      onClose = (\<lambda>n obj held. Inr (AccessIdentifiers (100 + n), obj))\<rparr>"

definition hdr0 :: rawObject where
  "hdr0 = SetContainerID (Some 7) (SetOwnerID (Some 9) NewRaw)"

text \<open>
  Collaborators like \<open>plainEnv\<close>, but with sinks that sign the parent: when a sink closes
  an object whose header carries a parent, it writes the identifier \<open>55\<close> into that parent
  through the pointer it holds.
\<close>

definition signingEnv :: collaborators where
  "signingEnv =
     plainEnv\<lparr>onClose := (\<lambda>n obj held.
        Inr (AccessIdentifiers (100 + n),
             case GetParent obj of
               None \<Rightarrow> obj
             | Some p \<Rightarrow> SetParent (SetID (Some 55) p) obj))\<rparr>"

subsection \<open>Auxiliary definitions of the proofs\<close>

text \<open>What \<open>writeHashes\<close> leaves alone in the current header.\<close>

definition sameLinks :: "rawObject \<Rightarrow> rawObject \<Rightarrow> bool" where
  "sameLinks c c' \<longleftrightarrow>
     GetID c' = GetID c \<and> GetContainerID c' = GetContainerID c \<and> GetOwnerID c' = GetOwnerID c \<and>
     GetAttributes c' = GetAttributes c \<and> GetPreviousID c' = GetPreviousID c \<and>
     GetParent c' = GetParent c \<and> GetChildren c' = GetChildren c \<and>
     GetPayloadSize c' = GetPayloadSize c"

text \<open>The pair of hashers of \<open>initializeCurrent\<close>, after some bytes.\<close>

definition hashersOf :: "bytes \<Rightarrow> payloadChecksumHasher list" where
  "hashersOf bs =
     [\<lparr>hasher = Sha256 bs, checksumWriter = WriteSHA256\<rparr>,
      \<lparr>hasher = Tz bs, checksumWriter = WriteTillichZemor\<rparr>]"

text \<open>
  The release of the current object, the part of \<open>release\<close> that every call runs; an
  auxiliary of the proofs, related to \<open>release\<close> by \<open>release_False\<close> and \<open>release_True\<close>.
\<close>

definition releaseCurrent ::
  "collaborators \<Rightarrow> payloadSizeLimiter \<times> world
     \<Rightarrow> failure + accessIdentifiers \<times> payloadSizeLimiter \<times> world" where
  "releaseCurrent env sw =
     (case sw of (s, w) \<Rightarrow>
      (case writeHashes env (currentHashers s) s of
        Inl f \<Rightarrow> Inl f
      | Inr s2 \<Rightarrow>
      (case target s2 of
        None \<Rightarrow> Inl (Panic NilDereference)
      | Some t \<Rightarrow>
      (case current s2 of
        None \<Rightarrow> Inl (Panic NilDereference)
      | Some c \<Rightarrow>
      (case sink_WriteHeader env t c of
        Inl e \<Rightarrow> Inl (Error (Wrap e ''could not write header''))
      | Inr (t1, c1) \<Rightarrow>
      (case sink_Close env t1 c1 w of
        Inl e \<Rightarrow> Inl (Error (Wrap e ''could not close target''))
      | Inr (ids, c2, w1) \<Rightarrow>
          Inr (ids, s2\<lparr>target := Some t1, current := Some c2,
                        previous := previous s2 @ [SelfID ids]\<rparr>, w1)))))))"

text \<open>
  One pass through the body of \<open>writeChunk\<close>, without the recursive call: \<open>atBoundary\<close>
  is the block under \<open>if s.written%s.maxSize == 0\<close>, \<open>writeStep\<close> adds the write of the
  cut and the counter. Auxiliaries of the proofs, related to \<open>writeChunk\<close> by
  \<open>writeChunk_unfold\<close>.
\<close>

definition atBoundary ::
  "collaborators \<Rightarrow> payloadSizeLimiter \<times> world \<Rightarrow> failure + payloadSizeLimiter \<times> world" where
  "atBoundary env sw =
     (case sw of (s, w) \<Rightarrow>
        if written s mod maxSize s = 0 then
          (case (if written s > 0 then
                   (case release env False (s, w) of
                      Inl f \<Rightarrow> Inl (wrapped ''could not release object'' f)
                    | Inr (ids, sw') \<Rightarrow> Inr sw')
                 else Inr (s, w)) of
             Inl f \<Rightarrow> Inl f
           | Inr sw1 \<Rightarrow> initialize sw1)
        else Inr (s, w))"

definition writeStep ::
  "collaborators \<Rightarrow> bytes \<Rightarrow> payloadSizeLimiter \<times> world \<Rightarrow> failure + payloadSizeLimiter \<times> world" where
  "writeStep env chunk sw =
     (case atBoundary env sw of
        Inl f \<Rightarrow> Inl f
      | Inr (s1, w1) \<Rightarrow>
          (if maxSize s1 = 0 then Inl (Panic DivideByZero)
           else
           let cut = min (length chunk) (maxSize s1 - written s1 mod maxSize s1) in
           case chunkWriter_Write env (take cut chunk) (s1, w1) of
             Inl f \<Rightarrow> Inl (wrapped ''could not write chunk to target'' f)
           | Inr (s2, w2) \<Rightarrow> Inr (s2\<lparr>written := (written s2 + cut) mod 2 ^ 64\<rparr>, w2)))"

text \<open>The previous-reference chain of a list of emissions, starting from \<open>prev\<close>.\<close>

fun chained :: "oid option \<Rightarrow> emission list \<Rightarrow> bool" where
  "chained prev [] \<longleftrightarrow> True"
| "chained prev (e # es) \<longleftrightarrow>
     (\<exists>h. eHeader e = Some h \<and> GetPreviousID h = prev) \<and> chained (Some (SelfID (eIDs e))) es"

text \<open>The header of an emission carries the two digests of exactly its payload.\<close>

definition checksummed :: "collaborators \<Rightarrow> emission \<Rightarrow> bool" where
  "checksummed env e \<longleftrightarrow>
     (\<exists>h. eHeader e = Some h \<and>
        GetPayloadChecksum h = Some (SHA256 (sha256_Sum env (ePayload e))) \<and>
        length (sha256_Sum env (ePayload e)) = 32 \<and>
        GetPayloadHomomorphicHash h = Some (TillichZemor (tz_Sum env (ePayload e))) \<and>
        length (tz_Sum env (ePayload e)) = 64)"

text \<open>
  The state between two passes of \<open>writeChunk\<close>, after the bytes \<open>Q\<close> have been written
  to a splitter with maximum \<open>M\<close> and header \<open>hdr\<close>.
\<close>

definition invCfg :: "nat \<Rightarrow> payloadSizeLimiter \<Rightarrow> bool" where
  "invCfg M s \<longleftrightarrow> maxSize s = M \<and> targetInit s = Some newTarget"

definition invOut :: "collaborators \<Rightarrow> nat \<Rightarrow> payloadSizeLimiter \<times> world \<Rightarrow> bool" where
  "invOut env M sw \<longleftrightarrow>
     (case sw of (s, w) \<Rightarrow>
        previous s = map (\<lambda>e. SelfID (eIDs e)) (emitted w) \<and>
        (\<forall>e \<in> set (emitted w). length (ePayload e) = M \<and> checksummed env e) \<and>
        chained None (emitted w))"

definition invCur :: "rawObject \<Rightarrow> payloadSizeLimiter \<times> world \<Rightarrow> bool" where
  "invCur hdr sw \<longleftrightarrow>
     (case sw of (s, w) \<Rightarrow>
        (\<exists>c. current s = Some c \<and>
           (if emitted w = [] then c = fromObject hdr
            else GetPreviousID c = Some (SelfID (eIDs (last (emitted w)))) \<and>
                 parent s = Some (eLeft (hd (emitted w))))))"

definition invTgt :: "nat \<Rightarrow> bytes \<Rightarrow> payloadSizeLimiter \<times> world \<Rightarrow> bool" where
  "invTgt M Q sw \<longleftrightarrow>
     (case sw of (s, w) \<Rightarrow>
        written s = length Q \<and>
        (case target s of
           None \<Rightarrow> Q = [] \<and> emitted w = [] \<and> parentHashers s = []
         | Some t \<Rightarrow>
             concat (map ePayload (emitted w)) @ sinkPayload t = Q \<and>
             length (sinkPayload t) \<le> M \<and>
             (Q \<noteq> [] \<longrightarrow> sinkPayload t \<noteq> []) \<and>
             currentHashers s = hashersOf (sinkPayload t) \<and>
             parentHashers s = (if emitted w = [] then [] else hashersOf Q)))"

definition inv ::
  "collaborators \<Rightarrow> nat \<Rightarrow> rawObject \<Rightarrow> bytes \<Rightarrow> payloadSizeLimiter \<times> world \<Rightarrow> bool" where
  "inv env M hdr Q sw \<longleftrightarrow>
     invCfg M (fst sw) \<and> invOut env M sw \<and> invCur hdr sw \<and> invTgt M Q sw"

text \<open>
  No empty \<open>Write\<close> is issued while the number \<open>n\<close> of bytes written so far is a positive
  multiple of \<open>M\<close>.
\<close>

fun offBoundary :: "nat \<Rightarrow> nat \<Rightarrow> bytes list \<Rightarrow> bool" where
  "offBoundary M n [] \<longleftrightarrow> True"
| "offBoundary M n (p # ps) \<longleftrightarrow>
     \<not> (p = [] \<and> 0 < n \<and> n mod M = 0) \<and> offBoundary M (n + length p) ps"

text \<open>
  What a finished stream has left in the world: the objects that carry the payload and,
  when more than one object was emitted, the linking object, which \<open>Close\<close> emits last
  (\<open>Close_single\<close> and \<open>Close_multi\<close> below show that \<open>Close\<close> adds either one object,
  or two to a world that has one already).
\<close>

definition chunksOf :: "world \<Rightarrow> emission list" where
  "chunksOf w = (if length (emitted w) \<le> 1 then emitted w else butlast (emitted w))"

definition linkingOf :: "world \<Rightarrow> emission option" where
  "linkingOf w = (if length (emitted w) \<le> 1 then None else Some (last (emitted w)))"

text \<open>
  What holds between two passes of \<open>writeChunk\<close> whatever was written: the identifiers kept
  are those of the emissions, every emission carries the digests of its own payload, the
  previous-references form a chain, and the hashers are those of \<open>initializeCurrent\<close>.
\<close>

definition linvCur ::
  "rawObject \<Rightarrow> rawObject option \<Rightarrow> rawObject option \<Rightarrow> emission list \<Rightarrow> bool" where
  "linvCur hdr cur par es \<longleftrightarrow>
     (\<exists>c. cur = Some c \<and>
        (if es = [] then c = fromObject hdr
         else GetPreviousID c = Some (SelfID (eIDs (last es))) \<and> par \<noteq> None))"

definition linv :: "collaborators \<Rightarrow> rawObject \<Rightarrow> payloadSizeLimiter \<times> world \<Rightarrow> bool" where
  "linv env hdr sw \<longleftrightarrow>
     (case sw of (s, w) \<Rightarrow>
        targetInit s = Some newTarget \<and>
        previous s = map (\<lambda>e. SelfID (eIDs e)) (emitted w) \<and>
        (\<forall>e \<in> set (emitted w). checksummed env e) \<and>
        chained None (emitted w) \<and>
        linvCur hdr (current s) (parent s) (emitted w) \<and>
        (case target s of
           None \<Rightarrow> currentHashers s = []
         | Some t \<Rightarrow> currentHashers s = hashersOf (sinkPayload t)) \<and>
        (parentHashers s = [] \<or> (\<exists>bs. parentHashers s = hashersOf bs)))"

text \<open>The digest functions return digests of the sizes of SHA-256 and Tillich-Zemor.\<close>

definition goodDigests :: "collaborators \<Rightarrow> bool" where
  "goodDigests env \<longleftrightarrow>
     (\<forall>bs. length (sha256_Sum env bs) = 32 \<and> length (tz_Sum env bs) = 64)"

text \<open>The failure is the panic of a \<open>checksumWriter\<close>.\<close>

definition checksumPanic :: "failure \<Rightarrow> bool" where
  "checksumPanic f \<longleftrightarrow> (\<exists>a b. f = Panic (WrongChecksumLength a b))"

text \<open>The sinks accept every \<open>Write\<close>.\<close>

definition reliableWrites :: "collaborators \<Rightarrow> bool" where
  "reliableWrites env \<longleftrightarrow> (\<forall>n held p. onWrite env n held p = None)"

text \<open>The collaborators with sinks that accept every write, all else unchanged.\<close>

definition quiet :: "collaborators \<Rightarrow> collaborators" where
  "quiet env = env\<lparr>onWrite := (\<lambda>n held p. None)\<rparr>"

section \<open>Basic facts\<close>

lemmas setters = SetID_def SetContainerID_def SetOwnerID_def SetAttributes_def SetPreviousID_def
  SetParent_def SetChildren_def SetPayloadChecksum_def SetPayloadHomomorphicHash_def SetPayloadSize_def

lemma writeChecksum_Inr:
  assumes "writeChecksum cw cs s = Inr s'"
  obtains c where "current s = Some c"
    and "s' = s\<lparr>current := Some (case cw of
                 WriteSHA256 \<Rightarrow> SetPayloadChecksum (SHA256 cs) c
               | WriteTillichZemor \<Rightarrow> SetPayloadHomomorphicHash (TillichZemor cs) c)\<rparr>"
    and "length cs = (case cw of WriteSHA256 \<Rightarrow> 32 | WriteTillichZemor \<Rightarrow> 64)"
  using assms by (cases cw) (auto split: if_splits option.splits)

lemma writeHashes_frame:
  "writeHashes env hs s = Inr s' \<Longrightarrow> s' = s\<lparr>current := current s'\<rparr>"
proof (induction hs arbitrary: s)
  case Nil
  then show ?case by simp
next
  case (Cons h hs)
  from Cons.prems obtain s1 where
    a: "writeChecksum (checksumWriter h) (hash_Sum env (hasher h)) s = Inr s1"
    and b: "writeHashes env hs s1 = Inr s'"
    by (auto split: sum.splits)
  from a obtain c' where c': "s1 = s\<lparr>current := c'\<rparr>"
    by (auto elim!: writeChecksum_Inr)
  have "s' = s1\<lparr>current := current s'\<rparr>"
    by (rule Cons.IH [OF b])
  then show ?case
    by (simp add: c')
qed

lemma sameLinks_refl [simp]: "sameLinks c c"
  by (simp add: sameLinks_def)

lemma sameLinks_trans: "sameLinks a b \<Longrightarrow> sameLinks b c \<Longrightarrow> sameLinks a c"
  by (simp add: sameLinks_def)

lemma writeHashes_current:
  "writeHashes env hs s = Inr s' \<Longrightarrow> current s = Some c
     \<Longrightarrow> \<exists>c'. current s' = Some c' \<and> sameLinks c c'"
proof (induction hs arbitrary: s c)
  case Nil
  then show ?case by auto
next
  case (Cons h hs)
  from Cons.prems obtain s1 where
    a: "writeChecksum (checksumWriter h) (hash_Sum env (hasher h)) s = Inr s1"
    and b: "writeHashes env hs s1 = Inr s'"
    by (auto split: sum.splits)
  from a obtain c0 where c0: "current s = Some c0"
    and s1: "s1 = s\<lparr>current := Some (case checksumWriter h of
                 WriteSHA256 \<Rightarrow> SetPayloadChecksum (SHA256 (hash_Sum env (hasher h))) c0
               | WriteTillichZemor \<Rightarrow>
                   SetPayloadHomomorphicHash (TillichZemor (hash_Sum env (hasher h))) c0)\<rparr>"
    by (rule writeChecksum_Inr)
  from c0 Cons.prems(2) have "c0 = c" by simp
  with s1 obtain c1 where c1: "current s1 = Some c1" "sameLinks c c1"
    by (cases "checksumWriter h") (simp_all add: sameLinks_def setters)
  from Cons.IH [OF b c1(1)] c1(2) show ?case
    by (auto intro: sameLinks_trans)
qed

lemma writeHashes_needs_current:
  "writeHashes env hs s = Inr s' \<Longrightarrow> hs \<noteq> [] \<Longrightarrow> current s \<noteq> None"
  by (cases hs) (auto split: sum.splits elim!: writeChecksum_Inr)

lemma feed_hashersOf: "map (feed p) (hashersOf bs) = hashersOf (bs @ p)"
  by (simp add: hashersOf_def feed_def)

lemma writeHashes_hashersOf:
  assumes "writeHashes env (hashersOf bs) s = Inr s'"
  obtains c where "current s = Some c"
    and "current s' = Some (SetPayloadHomomorphicHash (TillichZemor (tz_Sum env bs))
                          (SetPayloadChecksum (SHA256 (sha256_Sum env bs)) c))"
    and "length (sha256_Sum env bs) = 32" and "length (tz_Sum env bs) = 64"
  using assms
  by (auto simp: hashersOf_def split: sum.splits if_splits option.splits)

lemma release_False: "release env False sw = releaseCurrent env sw"
  by (cases sw) (simp add: releaseCurrent_def split: sum.splits option.splits prod.splits)

lemma release_True:
  "release env True (s, w) =
     (if previous s = [] then releaseCurrent env (s, w)
      else
        (case finalizeParent env s of
           Inl f \<Rightarrow> Inl f
         | Inr s1 \<Rightarrow>
        (case releaseCurrent env (s1, w) of
           Inl f \<Rightarrow> Inl f
         | Inr (ids, s3, w1) \<Rightarrow>
        (case initializeLinking s3 of
           Inl f \<Rightarrow> Inl f
         | Inr s4 \<Rightarrow>
        (case initializeCurrent (s4, w1) of
           Inl f \<Rightarrow> Inl f
         | Inr sw5 \<Rightarrow>
        (case releaseCurrent env sw5 of
           Inl f \<Rightarrow> Inl (wrapped ''could not release linking object'' f)
         | Inr (ids', sw6) \<Rightarrow> Inr (ids, sw6)))))))"
proof (cases "previous s = []")
  case True
  then show ?thesis
    by (subst release.simps)
       (simp add: releaseCurrent_def del: release.simps
          split: sum.splits option.splits prod.splits)
next
  case False
  then show ?thesis
    by (subst release.simps)
       (auto simp add: releaseCurrent_def release_False simp del: release.simps
          split: sum.splits option.splits prod.splits)
qed

declare release.simps [simp del]

declare writeChunk.simps [simp del]

lemma writeHashes_change:
  assumes "writeHashes env hs s = Inr s'"
  obtains c' where "s' = s\<lparr>current := c'\<rparr>"
  using writeHashes_frame [OF assms] by blast

lemma releaseCurrent_Inr:
  assumes "releaseCurrent env (s, w) = Inr (ids, s', w')"
  obtains t c c1 c2 s2 where
    "writeHashes env (currentHashers s) s = Inr s2"
    and "target s = Some t"
    and "current s2 = Some c"
    and "onWriteHeader env (sinkNo t) c = Inr c1"
    and "onClose env (sinkNo t) c1 (sinkPayload t) = Inr (ids, c2)"
    and "s' = s\<lparr>target := Some (t\<lparr>sinkHeader := Some c\<rparr>), current := Some c2,
                  previous := previous s @ [SelfID ids]\<rparr>"
    and "w' = w\<lparr>emitted := emitted w @
                  [\<lparr>eSink = sinkNo t, eHeader = Some c, ePayload = sinkPayload t,
                    eIDs = ids, eLeft = c2\<rparr>]\<rparr>"
proof -
  from assms obtain s2 where s2: "writeHashes env (currentHashers s) s = Inr s2"
    by (auto simp: releaseCurrent_def split: sum.splits)
  then obtain c' where fr: "s2 = s\<lparr>current := c'\<rparr>"
    by (rule writeHashes_change)
  from assms s2 obtain t where t: "target s2 = Some t"
    by (auto simp: releaseCurrent_def split: option.splits)
  from assms s2 t obtain c where c: "current s2 = Some c"
    by (auto simp: releaseCurrent_def split: option.splits)
  from assms s2 t c obtain c1 where
    c1: "onWriteHeader env (sinkNo t) c = Inr c1"
    by (auto simp: releaseCurrent_def sink_WriteHeader_def split: sum.splits)
  from assms s2 t c c1 obtain c2 where
    c2: "onClose env (sinkNo t) c1 (sinkPayload t) = Inr (ids, c2)"
    and s': "s' = s2\<lparr>target := Some (t\<lparr>sinkHeader := Some c\<rparr>), current := Some c2,
                  previous := previous s2 @ [SelfID ids]\<rparr>"
    and w': "w' = w\<lparr>emitted := emitted w @
                  [\<lparr>eSink = sinkNo t, eHeader = Some c, ePayload = sinkPayload t,
                    eIDs = ids, eLeft = c2\<rparr>]\<rparr>"
    by (auto simp: releaseCurrent_def sink_WriteHeader_def sink_Close_def split: sum.splits)
  show thesis
  proof (rule that [OF s2 _ c c1 c2 _ w'])
    show "target s = Some t" using t fr by simp
    show "s' = s\<lparr>target := Some (t\<lparr>sinkHeader := Some c\<rparr>), current := Some c2,
                  previous := previous s @ [SelfID ids]\<rparr>"
      using s' fr by simp
  qed
qed

lemma initializeCurrent_newTarget:
  "targetInit s = Some newTarget \<Longrightarrow>
     initializeCurrent (s, w) =
       Inr (s\<lparr>target := Some \<lparr>sinkNo = created w, sinkHeader = None, sinkPayload = []\<rparr>,
              currentHashers := hashersOf []\<rparr>,
            w\<lparr>created := Suc (created w)\<rparr>)"
  by (simp add: initializeCurrent_def newTarget_def hashersOf_def)

lemma initialize_first:
  "previous s = [] \<Longrightarrow> initialize (s, w) = initializeCurrent (s, w)"
  by (simp add: initialize_def)

lemma initialize_second:
  "previous s = [i] \<Longrightarrow> current s = Some c \<Longrightarrow>
     initialize (s, w) =
       initializeCurrent
         (s\<lparr>parent := Some c, parentHashers := currentHashers s,
            current := Some (SetPreviousID i (fromObject c))\<rparr>, w)"
  by (simp add: initialize_def)

lemma initialize_later:
  "length (previous s) > 1 \<Longrightarrow> current s = Some c \<Longrightarrow>
     initialize (s, w) =
       initializeCurrent (s\<lparr>current := Some (SetPreviousID (last (previous s)) c)\<rparr>, w)"
  by (cases "previous s" rule: rev_cases) (auto simp add: initialize_def)

lemma chunkWriter_Write_Inr:
  assumes "chunkWriter_Write env p (s, w) = Inr (s', w')"
  obtains t where "target s = Some t"
    and "onWrite env (sinkNo t) (sinkPayload t) p = None"
    and "s' = s\<lparr>target := Some (t\<lparr>sinkPayload := sinkPayload t @ p\<rparr>),
                  currentHashers := map (feed p) (currentHashers s),
                  parentHashers := map (feed p) (parentHashers s)\<rparr>"
    and "w' = w"
  using assms
  by (auto simp: chunkWriter_Write_def sink_Write_def split: option.splits sum.splits)

lemma initializeCurrent_frame:
  "initializeCurrent (s, w) = Inr (s', w') \<Longrightarrow>
     maxSize s' = maxSize s \<and> written s' = written s \<and> targetInit s' = targetInit s"
  by (auto simp: initializeCurrent_def split: option.splits prod.splits)

lemma initialize_frame:
  "initialize (s, w) = Inr (s', w') \<Longrightarrow>
     maxSize s' = maxSize s \<and> written s' = written s \<and> targetInit s' = targetInit s"
  by (auto simp: initialize_def Let_def split: if_splits sum.splits option.splits
        dest!: initializeCurrent_frame)

lemma releaseCurrent_frame:
  "releaseCurrent env (s, w) = Inr (ids, s', w') \<Longrightarrow>
     maxSize s' = maxSize s \<and> written s' = written s \<and> targetInit s' = targetInit s"
  by (erule releaseCurrent_Inr) simp

lemma atBoundary_frame:
  "atBoundary env (s, w) = Inr (s', w') \<Longrightarrow>
     maxSize s' = maxSize s \<and> written s' = written s \<and> targetInit s' = targetInit s"
  by (auto simp: atBoundary_def release_False split: if_splits sum.splits
        dest!: initialize_frame releaseCurrent_frame)

lemma writeChunk_unfold:
  "writeChunk env chunk (s, w) =
     (if maxSize s = 0 then Inl (Panic DivideByZero)
      else
        (case writeStep env chunk (s, w) of
           Inl f \<Rightarrow> Inl f
         | Inr sw3 \<Rightarrow>
             if length chunk > maxSize s - written s mod maxSize s
             then writeChunk env (drop (maxSize s - written s mod maxSize s) chunk) sw3
             else Inr sw3))"
proof (cases "atBoundary env (s, w)")
  case (Inl f)
  then show ?thesis
    by (subst writeChunk.simps) (simp add: writeStep_def atBoundary_def)
next
  case (Inr sw1)
  obtain s1 w1 where sw1: "sw1 = (s1, w1)" by (cases sw1)
  from Inr sw1 have fr: "maxSize s1 = maxSize s" "written s1 = written s"
    by (auto dest: atBoundary_frame)
  from Inr sw1 fr show ?thesis
    by (subst writeChunk.simps)
       (auto simp add: writeStep_def atBoundary_def Let_def min_def
          split: sum.splits prod.splits)
qed

text \<open>The equations that evaluate a stream on concrete input.\<close>

lemmas evals = stream_def plainEnv_def signingEnv_def hdr0_def Close_def WriteHeader_def
  NewPayloadSizeLimiter_def emptyWorld_def Write_def
  initialize_def initializeCurrent_def initializeLinking_def finalizeParent_def
  chunkWriter_Write_def feed_def sink_Write_def sink_WriteHeader_def sink_Close_def
  newTarget_def fromObject_def NewRaw_def setters Let_def release.simps writeChunk.simps

section \<open>The state between two writes\<close>

lemma chained_snoc:
  "chained prev (es @ [e]) \<longleftrightarrow>
     chained prev es \<and>
     (\<exists>h. eHeader e = Some h \<and>
        GetPreviousID h = (if es = [] then prev else Some (SelfID (eIDs (last es)))))"
  by (induction es arbitrary: prev) auto

lemma length_concat_const:
  "(\<forall>e \<in> set es. length (f e) = M) \<Longrightarrow> length (concat (map f es)) = M * length es"
  by (induction es) auto

lemma inv_start:
  assumes "inv env M hdr [] (s, w)" "0 < M"
  shows "emitted w = []" "previous s = []" "parentHashers s = []"
    "current s = Some (fromObject hdr)" "written s = 0"
proof -
  from assms(1) have out: "invOut env M (s, w)" and tgt: "invTgt M [] (s, w)"
    and cur: "invCur hdr (s, w)"
    by (simp_all add: inv_def)
  show e: "emitted w = []"
  proof (cases "target s")
    case None
    with tgt show ?thesis by (simp add: invTgt_def)
  next
    case (Some t)
    with tgt have "concat (map ePayload (emitted w)) = []"
      by (simp add: invTgt_def)
    then have "length (concat (map ePayload (emitted w))) = 0"
      by (simp only: list.size)
    moreover from out have "length (concat (map ePayload (emitted w))) = M * length (emitted w)"
      by (intro length_concat_const) (simp add: invOut_def)
    ultimately show ?thesis using assms(2) by simp
  qed
  from out e show "previous s = []" by (simp add: invOut_def)
  from tgt e show "parentHashers s = []"
    by (cases "target s") (simp_all add: invTgt_def)
  from cur e show "current s = Some (fromObject hdr)" by (auto simp add: invCur_def)
  from tgt show "written s = 0" by (simp add: invTgt_def)
qed

lemma inv_open:
  assumes "inv env M hdr Q (s, w)" "Q \<noteq> []"
  obtains t where "target s = Some t" "sinkPayload t \<noteq> []" "length (sinkPayload t) \<le> M"
    "concat (map ePayload (emitted w)) @ sinkPayload t = Q"
    "length Q = M * length (emitted w) + length (sinkPayload t)"
    "currentHashers s = hashersOf (sinkPayload t)"
    "parentHashers s = (if emitted w = [] then [] else hashersOf Q)"
proof -
  from assms(1) have out: "invOut env M (s, w)" and tgt: "invTgt M Q (s, w)"
    by (simp_all add: inv_def)
  from tgt assms(2) obtain t where t: "target s = Some t"
    by (cases "target s") (auto simp add: invTgt_def)
  from out have len: "length (concat (map ePayload (emitted w))) = M * length (emitted w)"
    by (intro length_concat_const) (simp add: invOut_def)
  from tgt t have cc: "concat (map ePayload (emitted w)) @ sinkPayload t = Q"
    by (simp add: invTgt_def)
  have "length Q = length (concat (map ePayload (emitted w))) + length (sinkPayload t)"
    by (subst cc [symmetric]) simp
  with len have l: "length Q = M * length (emitted w) + length (sinkPayload t)" by simp
  from tgt t assms(2) show thesis
    by (intro that [OF t _ _ cc l]) (simp_all add: invTgt_def)
qed

lemma mod_boundary:
  fixes M k r :: nat
  assumes "0 < r" "r \<le> M"
  shows "(M * k + r) mod M = 0 \<longleftrightarrow> r = M"
    and "(M * k + r) mod M \<noteq> 0 \<Longrightarrow> (M * k + r) mod M = r"
proof -
  have m: "(M * k + r) mod M = r mod M" by simp
  show a: "(M * k + r) mod M = 0 \<longleftrightarrow> r = M"
  proof
    assume "(M * k + r) mod M = 0"
    with m have z: "r mod M = 0" by simp
    show "r = M"
    proof (rule ccontr)
      assume "r \<noteq> M"
      with assms have "r < M" by simp
      then have "r mod M = r" by simp
      with z assms show False by simp
    qed
  next
    assume "r = M"
    then show "(M * k + r) mod M = 0" by simp
  qed
  assume "(M * k + r) mod M \<noteq> 0"
  with a assms have "r < M" by simp
  with m show "(M * k + r) mod M = r" by simp
qed

lemma atBoundary_mid:
  "written s mod maxSize s \<noteq> 0 \<Longrightarrow> atBoundary env (s, w) = Inr (s, w)"
  by (simp add: atBoundary_def)

lemma atBoundary_start:
  "written s = 0 \<Longrightarrow> atBoundary env (s, w) = initialize (s, w)"
  by (simp add: atBoundary_def)

lemma atBoundary_edge:
  "0 < written s \<Longrightarrow> written s mod maxSize s = 0 \<Longrightarrow>
     atBoundary env (s, w) =
       (case releaseCurrent env (s, w) of
          Inl f \<Rightarrow> Inl (wrapped ''could not release object'' f)
        | Inr (ids, sw') \<Rightarrow> initialize sw')"
  by (simp add: atBoundary_def release_False split: sum.splits prod.splits)

lemma writeStep_after:
  assumes "atBoundary env (s, w) = Inr (s1, w1)" "0 < maxSize s1"
    and "writeStep env chunk (s, w) = Inr (s', w')"
  obtains t where "target s1 = Some t" "w' = w1"
    "s' = s1\<lparr>target := Some (t\<lparr>sinkPayload := sinkPayload t @
                    take (min (length chunk) (maxSize s1 - written s1 mod maxSize s1)) chunk\<rparr>),
              currentHashers := map (feed
                    (take (min (length chunk) (maxSize s1 - written s1 mod maxSize s1)) chunk))
                    (currentHashers s1),
              parentHashers := map (feed
                    (take (min (length chunk) (maxSize s1 - written s1 mod maxSize s1)) chunk))
                    (parentHashers s1),
              written := (written s1 +
                    min (length chunk) (maxSize s1 - written s1 mod maxSize s1)) mod 2 ^ 64\<rparr>"
proof -
  let ?cut = "min (length chunk) (maxSize s1 - written s1 mod maxSize s1)"
  from assms obtain s2 w2 where
    cw: "chunkWriter_Write env (take ?cut chunk) (s1, w1) = Inr (s2, w2)"
    and s': "s' = s2\<lparr>written := (written s2 + ?cut) mod 2 ^ 64\<rparr>" and w': "w' = w2"
    by (auto simp add: writeStep_def Let_def split: sum.splits)
  from cw obtain t where t: "target s1 = Some t"
    and s2: "s2 = s1\<lparr>target := Some (t\<lparr>sinkPayload := sinkPayload t @ take ?cut chunk\<rparr>),
                  currentHashers := map (feed (take ?cut chunk)) (currentHashers s1),
                  parentHashers := map (feed (take ?cut chunk)) (parentHashers s1)\<rparr>"
    and w2: "w2 = w1"
    by (rule chunkWriter_Write_Inr)
  show thesis
    by (rule that [OF t]) (simp_all add: s' s2 w' w2)
qed

lemma take_min_length: "take (min (length xs) n) xs = take n xs"
  by (simp add: min_def)

lemma writeStep_inv_start:
  assumes i: "inv env M hdr [] (s, w)" and M: "0 < M"
    and len: "length chunk < 2 ^ 64"
    and ws: "writeStep env chunk (s, w) = Inr (s', w')"
  shows "inv env M hdr (take M chunk) (s', w')" and "target s' \<noteq> None"
proof -
  note st = inv_start [OF i M]
  from i have cfg: "maxSize s = M" "targetInit s = Some newTarget"
    by (simp_all add: inv_def invCfg_def)
  let ?t0 = "\<lparr>sinkNo = created w, sinkHeader = None, sinkPayload = []\<rparr>"
  let ?s1 = "s\<lparr>target := Some ?t0, currentHashers := hashersOf []\<rparr>"
  let ?w1 = "w\<lparr>created := Suc (created w)\<rparr>"
  have ab: "atBoundary env (s, w) = Inr (?s1, ?w1)"
    using st cfg by (simp add: atBoundary_start initialize_first initializeCurrent_newTarget)
  have m1: "0 < maxSize ?s1" using cfg M by simp
  from writeStep_after [OF ab m1 ws] obtain t where
    t: "target ?s1 = Some t" and w': "w' = ?w1" and
    s': "s' = ?s1\<lparr>target := Some (t\<lparr>sinkPayload := sinkPayload t @
                    take (min (length chunk) (maxSize ?s1 - written ?s1 mod maxSize ?s1)) chunk\<rparr>),
              currentHashers := map (feed
                    (take (min (length chunk) (maxSize ?s1 - written ?s1 mod maxSize ?s1)) chunk))
                    (currentHashers ?s1),
              parentHashers := map (feed
                    (take (min (length chunk) (maxSize ?s1 - written ?s1 mod maxSize ?s1)) chunk))
                    (parentHashers ?s1),
              written := (written ?s1 +
                    min (length chunk) (maxSize ?s1 - written ?s1 mod maxSize ?s1)) mod 2 ^ 64\<rparr>"
    by blast
  from t have t0: "t = ?t0" by simp
  have cut: "min (length chunk) (maxSize ?s1 - written ?s1 mod maxSize ?s1) = min (length chunk) M"
    using cfg st by simp
  have "min (length chunk) M < 2 ^ 64"
    using len by (simp add: min_less_iff_disj)
  then have nowrap: "min (length chunk) M mod 18446744073709551616 = min (length chunk) M"
    by simp
  have s'': "s' = s\<lparr>target := Some (?t0\<lparr>sinkPayload := take M chunk\<rparr>),
                     currentHashers := hashersOf (take M chunk),
                     parentHashers := [],
                     written := min (length chunk) M\<rparr>"
    unfolding s' cut t0
    using st by (simp add: feed_hashersOf take_min_length nowrap)
  show "target s' \<noteq> None" by (simp add: s'')
  have "invCfg M s'" using cfg by (simp add: s'' invCfg_def)
  moreover have "invOut env M (s', w')"
    using st by (simp add: s'' w' invOut_def)
  moreover have "invCur hdr (s', w')"
    using st by (simp add: s'' w' invCur_def)
  moreover have "invTgt M (take M chunk) (s', w')"
    using st M by (auto simp add: s'' w' invTgt_def min_def)
  ultimately show "inv env M hdr (take M chunk) (s', w')"
    by (simp add: inv_def)
qed

lemma initialize_next:
  assumes "previous s \<noteq> []" "current s = Some c" "targetInit s = Some newTarget"
  shows "initialize (s, w) =
     Inr (s\<lparr>parent := (if length (previous s) = 1 then Some c else parent s),
            parentHashers :=
              (if length (previous s) = 1 then currentHashers s else parentHashers s),
            current := Some (SetPreviousID (last (previous s))
                         (if length (previous s) = 1 then fromObject c else c)),
            target := Some \<lparr>sinkNo = created w, sinkHeader = None, sinkPayload = []\<rparr>,
            currentHashers := hashersOf []\<rparr>,
          w\<lparr>created := Suc (created w)\<rparr>)"
proof (cases "length (previous s) = 1")
  case True
  then obtain i where i: "previous s = [i]"
    by (cases "previous s") auto
  show ?thesis
    using assms(2,3) i
    by (simp add: initialize_second initializeCurrent_newTarget)
next
  case False
  with assms(1) have "length (previous s) > 1"
    by (cases "previous s") auto
  with False assms(2,3) show ?thesis
    by (simp add: initialize_later initializeCurrent_newTarget)
qed

lemma writeStep_inv_mid:
  assumes i: "inv env M hdr Q (s, w)" and M: "0 < M"
    and len: "length Q + length chunk < 2 ^ 64"
    and mid: "length Q mod M \<noteq> 0"
    and ws: "writeStep env chunk (s, w) = Inr (s', w')"
  shows "inv env M hdr (Q @ take (M - length Q mod M) chunk) (s', w')" and "target s' \<noteq> None"
proof -
  from mid have Q: "Q \<noteq> []" by auto
  from i have cfg: "maxSize s = M" "targetInit s = Some newTarget"
    and out: "invOut env M (s, w)" and cur: "invCur hdr (s, w)" and tgt: "invTgt M Q (s, w)"
    by (simp_all add: inv_def invCfg_def)
  from tgt have wr: "written s = length Q" by (simp add: invTgt_def)
  from inv_open [OF i Q] obtain t where t: "target s = Some t"
    and ne: "sinkPayload t \<noteq> []" and le: "length (sinkPayload t) \<le> M"
    and cc: "concat (map ePayload (emitted w)) @ sinkPayload t = Q"
    and lq: "length Q = M * length (emitted w) + length (sinkPayload t)"
    and ch: "currentHashers s = hashersOf (sinkPayload t)"
    and ph: "parentHashers s = (if emitted w = [] then [] else hashersOf Q)"
    by blast
  from ne have pos: "0 < length (sinkPayload t)" by simp
  from mid have r: "length Q mod M = length (sinkPayload t)"
    unfolding lq by (rule mod_boundary(2) [OF pos le])
  let ?E = "M - length Q mod M"
  let ?p = "take ?E chunk"
  have ab: "atBoundary env (s, w) = Inr (s, w)"
    using mid cfg wr by (simp add: atBoundary_mid)
  have m1: "0 < maxSize s" using cfg M by simp
  from writeStep_after [OF ab m1 ws] t obtain
    w': "w' = w" and
    s': "s' = s\<lparr>target := Some (t\<lparr>sinkPayload := sinkPayload t @
                    take (min (length chunk) (maxSize s - written s mod maxSize s)) chunk\<rparr>),
              currentHashers := map (feed
                    (take (min (length chunk) (maxSize s - written s mod maxSize s)) chunk))
                    (currentHashers s),
              parentHashers := map (feed
                    (take (min (length chunk) (maxSize s - written s mod maxSize s)) chunk))
                    (parentHashers s),
              written := (written s +
                    min (length chunk) (maxSize s - written s mod maxSize s)) mod 2 ^ 64\<rparr>"
    by auto
  have lp: "length ?p = min (length chunk) ?E" by simp
  have "length Q + min (length chunk) ?E < 2 ^ 64"
    using len by (simp add: min_def)
  then have nowrap: "(length Q + min (length chunk) ?E) mod 18446744073709551616
      = length Q + min (length chunk) ?E"
    by simp
  have f: "target s' = Some (t\<lparr>sinkPayload := sinkPayload t @ ?p\<rparr>)"
    "currentHashers s' = hashersOf (sinkPayload t @ ?p)"
    "parentHashers s' = (if emitted w = [] then [] else hashersOf (Q @ ?p))"
    "written s' = length (Q @ ?p)"
    "previous s' = previous s" "current s' = current s" "parent s' = parent s"
    "maxSize s' = M" "targetInit s' = Some newTarget"
    unfolding s' using cfg wr ch ph nowrap
    by (simp_all add: take_min_length feed_hashersOf)
  show "target s' \<noteq> None" by (simp add: f)
  have "invCfg M s'" by (simp add: f invCfg_def)
  moreover have "invOut env M (s', w')"
    using out by (simp add: f w' invOut_def)
  moreover have "invCur hdr (s', w')"
    using cur by (simp only: f w' invCur_def prod.case)
  moreover have "invTgt M (Q @ ?p) (s', w')"
    unfolding invTgt_def prod.case f option.case w'
  proof (intro conjI impI)
    show "length (Q @ ?p) = length (Q @ ?p)" by simp
    show "concat (map ePayload (emitted w)) @ sinkPayload (t\<lparr>sinkPayload := sinkPayload t @ ?p\<rparr>)
        = Q @ ?p"
      using cc by simp
    show "length (sinkPayload (t\<lparr>sinkPayload := sinkPayload t @ ?p\<rparr>)) \<le> M"
      using le r by (auto simp add: min_def)
    show "sinkPayload (t\<lparr>sinkPayload := sinkPayload t @ ?p\<rparr>) \<noteq> []"
      using ne by simp
    show "hashersOf (sinkPayload t @ ?p)
        = hashersOf (sinkPayload (t\<lparr>sinkPayload := sinkPayload t @ ?p\<rparr>))"
      by simp
    show "(if emitted w = [] then [] else hashersOf (Q @ ?p))
        = (if emitted w = [] then [] else hashersOf (Q @ ?p))"
      by simp
  qed
  ultimately show "inv env M hdr (Q @ ?p) (s', w')"
    by (simp add: inv_def)
qed

lemma writeStep_inv_edge:
  assumes i: "inv env M hdr Q (s, w)" and M: "0 < M"
    and len: "length Q + length chunk < 2 ^ 64"
    and Q: "Q \<noteq> []" and edge: "length Q mod M = 0" and chunk: "chunk \<noteq> []"
    and ws: "writeStep env chunk (s, w) = Inr (s', w')"
  shows "inv env M hdr (Q @ take M chunk) (s', w')" and "target s' \<noteq> None"
proof -
  from i have cfg: "maxSize s = M" "targetInit s = Some newTarget"
    and out: "invOut env M (s, w)" and cur: "invCur hdr (s, w)" and tgt: "invTgt M Q (s, w)"
    by (simp_all add: inv_def invCfg_def)
  from tgt have wr: "written s = length Q" by (simp add: invTgt_def)
  from out have prev: "previous s = map (\<lambda>e. SelfID (eIDs e)) (emitted w)"
    by (simp add: invOut_def)
  from inv_open [OF i Q] obtain t where t: "target s = Some t"
    and ne: "sinkPayload t \<noteq> []" and le: "length (sinkPayload t) \<le> M"
    and cc: "concat (map ePayload (emitted w)) @ sinkPayload t = Q"
    and lq: "length Q = M * length (emitted w) + length (sinkPayload t)"
    and ch: "currentHashers s = hashersOf (sinkPayload t)"
    and ph: "parentHashers s = (if emitted w = [] then [] else hashersOf Q)"
    by blast
  from ne have pos: "0 < length (sinkPayload t)" by simp
  from edge have full: "length (sinkPayload t) = M"
    unfolding lq by (simp only: mod_boundary(1) [OF pos le])
  \<comment> \<open>the release of the full object\<close>
  have wpos: "0 < written s" using wr Q by simp
  have wedge: "written s mod maxSize s = 0" using wr cfg edge by simp
  note ab = atBoundary_edge [OF wpos wedge, of env w]
  from ws obtain s1 w1 where ab1: "atBoundary env (s, w) = Inr (s1, w1)"
    by (auto simp add: writeStep_def split: sum.splits)
  with ab obtain ids sr wr' where
    rc: "releaseCurrent env (s, w) = Inr (ids, sr, wr')"
    and ini: "initialize (sr, wr') = Inr (s1, w1)"
    by (auto split: sum.splits)
  from rc obtain c c1 c2 s2 where
    wh: "writeHashes env (currentHashers s) s = Inr s2"
    and c: "current s2 = Some c"
    and sr: "sr = s\<lparr>target := Some (t\<lparr>sinkHeader := Some c\<rparr>), current := Some c2,
                  previous := previous s @ [SelfID ids]\<rparr>"
    and wr': "wr' = w\<lparr>emitted := emitted w @
                  [\<lparr>eSink = sinkNo t, eHeader = Some c, ePayload = sinkPayload t,
                    eIDs = ids, eLeft = c2\<rparr>]\<rparr>"
    using t by (auto elim!: releaseCurrent_Inr)
  let ?e = "\<lparr>eSink = sinkNo t, eHeader = Some c, ePayload = sinkPayload t,
              eIDs = ids, eLeft = c2\<rparr>"
  from wh ch obtain c0 where c0: "current s = Some c0"
    and c': "current s2 = Some (SetPayloadHomomorphicHash (TillichZemor (tz_Sum env (sinkPayload t)))
                          (SetPayloadChecksum (SHA256 (sha256_Sum env (sinkPayload t))) c0))"
    and l32: "length (sha256_Sum env (sinkPayload t)) = 32"
    and l64: "length (tz_Sum env (sinkPayload t)) = 64"
    by (auto elim!: writeHashes_hashersOf)
  from c c' have ceq: "c = SetPayloadHomomorphicHash (TillichZemor (tz_Sum env (sinkPayload t)))
                          (SetPayloadChecksum (SHA256 (sha256_Sum env (sinkPayload t))) c0)"
    by simp
  have cs: "checksummed env ?e"
    by (simp add: checksummed_def ceq l32 l64 setters)
  have cprev: "GetPreviousID c = GetPreviousID c0"
    by (simp add: ceq setters)
  from cur c0 have c0prev: "GetPreviousID c0 =
      (if emitted w = [] then None else Some (SelfID (eIDs (last (emitted w)))))"
    by (auto simp add: invCur_def fromObject_def NewRaw_def setters)
  from cur have par: "emitted w \<noteq> [] \<Longrightarrow> parent s = Some (eLeft (hd (emitted w)))"
    by (auto simp add: invCur_def)
  \<comment> \<open>the next object\<close>
  have "initialize (sr, wr') =
     Inr (sr\<lparr>parent := (if length (previous sr) = 1 then Some c2 else parent sr),
            parentHashers :=
              (if length (previous sr) = 1 then currentHashers sr else parentHashers sr),
            current := Some (SetPreviousID (last (previous sr))
                         (if length (previous sr) = 1 then fromObject c2 else c2)),
            target := Some \<lparr>sinkNo = created wr', sinkHeader = None, sinkPayload = []\<rparr>,
            currentHashers := hashersOf []\<rparr>,
          wr'\<lparr>created := Suc (created wr')\<rparr>)"
    by (rule initialize_next) (simp_all add: sr cfg)
  with ini have s1: "s1 = sr\<lparr>parent := (if length (previous sr) = 1 then Some c2 else parent sr),
            parentHashers :=
              (if length (previous sr) = 1 then currentHashers sr else parentHashers sr),
            current := Some (SetPreviousID (last (previous sr))
                         (if length (previous sr) = 1 then fromObject c2 else c2)),
            target := Some \<lparr>sinkNo = created wr', sinkHeader = None, sinkPayload = []\<rparr>,
            currentHashers := hashersOf []\<rparr>"
    and w1: "w1 = wr'\<lparr>created := Suc (created wr')\<rparr>"
    by simp_all
  have one: "length (previous sr) = 1 \<longleftrightarrow> emitted w = []"
    by (simp add: sr prev)
  have f1: "target s1 = Some \<lparr>sinkNo = created w, sinkHeader = None, sinkPayload = []\<rparr>"
    "currentHashers s1 = hashersOf []"
    "parentHashers s1 = hashersOf Q"
    "written s1 = length Q" "maxSize s1 = M" "targetInit s1 = Some newTarget"
    "previous s1 = previous s @ [SelfID ids]"
    "\<exists>c'. current s1 = Some c' \<and> GetPreviousID c' = Some (SelfID ids)"
    "parent s1 = Some (eLeft (hd (emitted w @ [?e])))"
    unfolding s1 one using cfg wr ch ph cc par
    by (auto simp add: sr wr' setters)
  \<comment> \<open>the write into the next object\<close>
  let ?p = "take M chunk"
  have m1: "0 < maxSize s1" using f1 M by simp
  from writeStep_after [OF ab1 m1 ws] f1(1) obtain
    w': "w' = w1" and
    s': "s' = s1\<lparr>target := Some (\<lparr>sinkNo = created w, sinkHeader = None, sinkPayload = []\<rparr>
                  \<lparr>sinkPayload := [] @
                    take (min (length chunk) (maxSize s1 - written s1 mod maxSize s1)) chunk\<rparr>),
              currentHashers := map (feed
                    (take (min (length chunk) (maxSize s1 - written s1 mod maxSize s1)) chunk))
                    (currentHashers s1),
              parentHashers := map (feed
                    (take (min (length chunk) (maxSize s1 - written s1 mod maxSize s1)) chunk))
                    (parentHashers s1),
              written := (written s1 +
                    min (length chunk) (maxSize s1 - written s1 mod maxSize s1)) mod 2 ^ 64\<rparr>"
    by auto
  have "length Q + min (length chunk) M < 2 ^ 64"
    using len by (simp add: min_def)
  then have nowrap: "(length Q + min (length chunk) M) mod 18446744073709551616
      = length Q + min (length chunk) M"
    by simp
  have f: "target s' = Some \<lparr>sinkNo = created w, sinkHeader = None, sinkPayload = ?p\<rparr>"
    "currentHashers s' = hashersOf ?p"
    "parentHashers s' = hashersOf (Q @ ?p)"
    "written s' = length (Q @ ?p)"
    "previous s' = previous s @ [SelfID ids]" "current s' = current s1" "parent s' = parent s1"
    "maxSize s' = M" "targetInit s' = Some newTarget"
    unfolding s' using f1(1-7) edge nowrap
    by (simp_all add: take_min_length feed_hashersOf)
  have em: "emitted w' = emitted w @ [?e]"
    by (simp add: w' w1 wr')
  show "target s' \<noteq> None" by (simp add: f)
  have "invCfg M s'" by (simp add: f invCfg_def)
  moreover have "invOut env M (s', w')"
    unfolding invOut_def prod.case f em
  proof (intro conjI ballI)
    show "previous s @ [SelfID ids] = map (\<lambda>e. SelfID (eIDs e)) (emitted w @ [?e])"
      using prev by simp
    show "length (ePayload e) = M" if "e \<in> set (emitted w @ [?e])" for e
      using that out full by (auto simp add: invOut_def)
    show "checksummed env e" if "e \<in> set (emitted w @ [?e])" for e
      using that out cs by (auto simp add: invOut_def)
    show "chained None (emitted w @ [?e])"
      using out cprev c0prev by (simp add: chained_snoc invOut_def)
  qed
  moreover have "invCur hdr (s', w')"
    using f1(8,9) by (simp add: invCur_def f em)
  moreover have "invTgt M (Q @ ?p) (s', w')"
    unfolding invTgt_def prod.case f option.case em
    using cc chunk M by simp
  ultimately show "inv env M hdr (Q @ ?p) (s', w')"
    by (simp add: inv_def)
qed

lemma writeStep_inv:
  assumes i: "inv env M hdr Q (s, w)" and M: "0 < M"
    and len: "length Q + length chunk < 2 ^ 64"
    and ok: "\<not> (chunk = [] \<and> 0 < length Q \<and> length Q mod M = 0)"
    and ws: "writeStep env chunk (s, w) = Inr (s', w')"
  shows "inv env M hdr (Q @ take (M - length Q mod M) chunk) (s', w') \<and> target s' \<noteq> None"
proof (cases "Q = []")
  case True
  with i len ws M show ?thesis
    using writeStep_inv_start [of env M hdr s w chunk s' w'] by simp
next
  case False
  show ?thesis
  proof (cases "length Q mod M = 0")
    case True
    with False ok have "chunk \<noteq> []" by simp
    with i M len False True ws show ?thesis
      using writeStep_inv_edge [of env M hdr Q s w chunk s' w'] by simp
  next
    case False
    with i M len ws show ?thesis
      using writeStep_inv_mid [of env M hdr Q s w chunk s' w'] by simp
  qed
qed

lemma writeChunk_inv:
  assumes "inv env M hdr Q (s, w)" and "0 < M"
    and "length Q + length chunk < 2 ^ 64"
    and "\<not> (chunk = [] \<and> 0 < length Q \<and> length Q mod M = 0)"
    and "writeChunk env chunk (s, w) = Inr (s', w')"
  shows "inv env M hdr (Q @ chunk) (s', w') \<and> target s' \<noteq> None"
  using assms
proof (induction "length chunk" arbitrary: chunk Q s w rule: less_induct)
  case less
  note i = less.prems(1) and M = less.prems(2) and len = less.prems(3)
    and ok = less.prems(4) and wc = less.prems(5)
  from i have cfg: "maxSize s = M" and wr: "written s = length Q"
    by (simp_all add: inv_def invCfg_def invTgt_def)
  let ?E = "M - length Q mod M"
  have E: "0 < ?E" using M by simp
  have u: "writeChunk env chunk (s, w) =
      (case writeStep env chunk (s, w) of
         Inl f \<Rightarrow> Inl f
       | Inr sw3 \<Rightarrow>
           if ?E < length chunk then writeChunk env (drop ?E chunk) sw3 else Inr sw3)"
    using writeChunk_unfold [of env chunk s w] M unfolding cfg wr by simp
  from wc obtain s3 w3 where
    ws: "writeStep env chunk (s, w) = Inr (s3, w3)"
    and rest: "(if ?E < length chunk then writeChunk env (drop ?E chunk) (s3, w3)
               else Inr (s3, w3)) = Inr (s', w')"
    unfolding u by (cases "writeStep env chunk (s, w)") auto
  from writeStep_inv [OF i M len ok ws]
  have i3: "inv env M hdr (Q @ take ?E chunk) (s3, w3)" and t3: "target s3 \<noteq> None"
    by simp_all
  show ?case
  proof (cases "?E < length chunk")
    case True
    with rest have wc': "writeChunk env (drop ?E chunk) (s3, w3) = Inr (s', w')" by simp
    have l: "length (drop ?E chunk) < length chunk" using True E by simp
    have len': "length (Q @ take ?E chunk) + length (drop ?E chunk) < 2 ^ 64"
      using len True by simp
    have ok': "\<not> (drop ?E chunk = [] \<and> 0 < length (Q @ take ?E chunk)
                  \<and> length (Q @ take ?E chunk) mod M = 0)"
      using True by simp
    from less.hyps [OF l i3 M len' ok' wc'] show ?thesis by simp
  next
    case False
    with rest i3 t3 show ?thesis by simp
  qed
qed

lemma Writes_inv:
  assumes "inv env M hdr Q (s, w)" and "0 < M"
    and "length Q + length (concat ps) < 2 ^ 64"
    and "offBoundary M (length Q) ps"
    and "Writes env ps (s, w) = Inr (s', w')"
  shows "inv env M hdr (Q @ concat ps) (s', w') \<and> (ps \<noteq> [] \<longrightarrow> target s' \<noteq> None)"
  using assms
proof (induction ps arbitrary: Q s w)
  case Nil
  then show ?case by simp
next
  case (Cons p ps)
  from Cons.prems(5) obtain s1 w1 where
    wc: "writeChunk env p (s, w) = Inr (s1, w1)"
    and rest: "Writes env ps (s1, w1) = Inr (s', w')"
    by (auto simp add: Write_def split: sum.splits)
  have len: "length Q + length p < 2 ^ 64" using Cons.prems(3) by simp
  have ok: "\<not> (p = [] \<and> 0 < length Q \<and> length Q mod M = 0)"
    using Cons.prems(4) by simp
  from writeChunk_inv [OF Cons.prems(1,2) len ok wc]
  have i1: "inv env M hdr (Q @ p) (s1, w1)" and t1: "target s1 \<noteq> None" by simp_all
  have len': "length (Q @ p) + length (concat ps) < 2 ^ 64" using Cons.prems(3) by simp
  have ok': "offBoundary M (length (Q @ p)) ps" using Cons.prems(4) by simp
  from Cons.IH [OF i1 Cons.prems(2) len' ok' rest]
  have "inv env M hdr (Q @ p @ concat ps) (s', w')"
    and k: "ps \<noteq> [] \<longrightarrow> target s' \<noteq> None" by simp_all
  moreover have "target s' \<noteq> None"
  proof (cases ps)
    case Nil
    with rest t1 show ?thesis by simp
  next
    case (Cons a list)
    with k show ?thesis by simp
  qed
  ultimately show ?case by simp
qed

lemma inv_initial:
  "inv env M hdr [] (WriteHeader hdr (NewPayloadSizeLimiter M (Some newTarget)), emptyWorld)"
  by (simp add: inv_def invCfg_def invOut_def invCur_def invTgt_def WriteHeader_def
        NewPayloadSizeLimiter_def emptyWorld_def)

section \<open>What holds between two writes, whatever was written\<close>

lemma linv_initial:
  "linv env hdr (WriteHeader hdr (NewPayloadSizeLimiter M (Some newTarget)), emptyWorld)"
  by (simp add: linv_def linvCur_def WriteHeader_def NewPayloadSizeLimiter_def emptyWorld_def)

lemma linv_fill:
  assumes l: "linv env hdr (s, w)"
    and cw: "chunkWriter_Write env p (s, w) = Inr (s2, w2)"
  shows "linv env hdr (s2\<lparr>written := n\<rparr>, w2)" and "target s2 \<noteq> None"
proof -
  from cw obtain t where t: "target s = Some t"
    and s2: "s2 = s\<lparr>target := Some (t\<lparr>sinkPayload := sinkPayload t @ p\<rparr>),
                  currentHashers := map (feed p) (currentHashers s),
                  parentHashers := map (feed p) (parentHashers s)\<rparr>"
    and w2: "w2 = w"
    by (rule chunkWriter_Write_Inr)
  show "target s2 \<noteq> None" by (simp add: s2)
  from l t have ch: "currentHashers s = hashersOf (sinkPayload t)"
    by (simp add: linv_def)
  from l have "parentHashers s = [] \<or> (\<exists>bs. parentHashers s = hashersOf bs)"
    by (simp add: linv_def)
  then have ph: "map (feed p) (parentHashers s) = [] \<or>
      (\<exists>bs. map (feed p) (parentHashers s) = hashersOf bs)"
    by (auto simp add: feed_hashersOf)
  from l t ch ph show "linv env hdr (s2\<lparr>written := n\<rparr>, w2)"
    unfolding linv_def prod.case s2 w2
    by (simp add: feed_hashersOf)
qed

lemma linv_init:
  assumes l: "linv env hdr (s, w)"
    and ini: "initialize (s, w) = Inr (s1, w1)"
  shows "linv env hdr (s1, w1)"
proof -
  from l have ti: "targetInit s = Some newTarget"
    and prev: "previous s = map (\<lambda>e. SelfID (eIDs e)) (emitted w)"
    by (simp_all add: linv_def)
  from l obtain c where c: "current s = Some c"
    and cp: "emitted w \<noteq> [] \<Longrightarrow>
       GetPreviousID c = Some (SelfID (eIDs (last (emitted w)))) \<and> parent s \<noteq> None"
    by (auto simp add: linv_def linvCur_def split: if_splits)
  from l have chs: "currentHashers s = [] \<or> (\<exists>bs. currentHashers s = hashersOf bs)"
    by (cases "target s") (auto simp add: linv_def)
  show ?thesis
  proof (cases "previous s = []")
    case True
    with ini ti have "s1 = s\<lparr>target := Some \<lparr>sinkNo = created w, sinkHeader = None, sinkPayload = []\<rparr>,
              currentHashers := hashersOf []\<rparr>" "w1 = w\<lparr>created := Suc (created w)\<rparr>"
      by (simp_all add: initialize_first initializeCurrent_newTarget)
    with l show ?thesis
      by (simp add: linv_def)
  next
    case False
    with prev have ne: "emitted w \<noteq> []" by auto
    from ini initialize_next [OF False c ti, of w]
    have s1: "s1 = s\<lparr>parent := (if length (previous s) = 1 then Some c else parent s),
            parentHashers :=
              (if length (previous s) = 1 then currentHashers s else parentHashers s),
            current := Some (SetPreviousID (last (previous s))
                         (if length (previous s) = 1 then fromObject c else c)),
            target := Some \<lparr>sinkNo = created w, sinkHeader = None, sinkPayload = []\<rparr>,
            currentHashers := hashersOf []\<rparr>"
      and w1: "w1 = w\<lparr>created := Suc (created w)\<rparr>"
      by simp_all
    have lst: "last (previous s) = SelfID (eIDs (last (emitted w)))"
      using ne by (simp add: prev last_map)
    have "linvCur hdr (current s1) (parent s1) (emitted w1)"
      using cp [OF ne] ne lst by (auto simp add: linvCur_def s1 w1 setters)
    moreover have "parentHashers s1 = [] \<or> (\<exists>bs. parentHashers s1 = hashersOf bs)"
      using l chs by (auto simp add: s1 linv_def)
    ultimately show ?thesis
      using l unfolding linv_def prod.case
      by (simp add: s1 w1)
  qed
qed

lemma linv_release_init:
  assumes l: "linv env hdr (s, w)"
    and rc: "releaseCurrent env (s, w) = Inr (ids, sr, wr)"
    and ini: "initialize (sr, wr) = Inr (s1, w1)"
  shows "linv env hdr (s1, w1)"
proof -
  from l have ti: "targetInit s = Some newTarget"
    and prev: "previous s = map (\<lambda>e. SelfID (eIDs e)) (emitted w)"
    and cur: "linvCur hdr (current s) (parent s) (emitted w)"
    and css: "\<forall>e \<in> set (emitted w). checksummed env e"
    and chn: "chained None (emitted w)"
    by (simp_all add: linv_def)
  from rc obtain t c c1 c2 s2 where
    wh: "writeHashes env (currentHashers s) s = Inr s2"
    and t: "target s = Some t"
    and c: "current s2 = Some c"
    and sr: "sr = s\<lparr>target := Some (t\<lparr>sinkHeader := Some c\<rparr>), current := Some c2,
                  previous := previous s @ [SelfID ids]\<rparr>"
    and wr: "wr = w\<lparr>emitted := emitted w @
                  [\<lparr>eSink = sinkNo t, eHeader = Some c, ePayload = sinkPayload t,
                    eIDs = ids, eLeft = c2\<rparr>]\<rparr>"
    by (rule releaseCurrent_Inr)
  let ?e = "\<lparr>eSink = sinkNo t, eHeader = Some c, ePayload = sinkPayload t,
              eIDs = ids, eLeft = c2\<rparr>"
  from l t have ch: "currentHashers s = hashersOf (sinkPayload t)"
    by (simp add: linv_def)
  from wh ch obtain c0 where c0: "current s = Some c0"
    and c': "current s2 = Some (SetPayloadHomomorphicHash (TillichZemor (tz_Sum env (sinkPayload t)))
                          (SetPayloadChecksum (SHA256 (sha256_Sum env (sinkPayload t))) c0))"
    and l32: "length (sha256_Sum env (sinkPayload t)) = 32"
    and l64: "length (tz_Sum env (sinkPayload t)) = 64"
    by (auto elim!: writeHashes_hashersOf)
  from c c' have ceq: "c = SetPayloadHomomorphicHash (TillichZemor (tz_Sum env (sinkPayload t)))
                          (SetPayloadChecksum (SHA256 (sha256_Sum env (sinkPayload t))) c0)"
    by simp
  have cs: "checksummed env ?e"
    by (simp add: checksummed_def ceq l32 l64 setters)
  have cprev: "GetPreviousID c = GetPreviousID c0"
    by (simp add: ceq setters)
  from cur c0 have c0prev: "GetPreviousID c0 =
      (if emitted w = [] then None else Some (SelfID (eIDs (last (emitted w)))))"
    by (auto simp add: linvCur_def fromObject_def NewRaw_def setters)
  from cur have par: "emitted w \<noteq> [] \<Longrightarrow> parent s \<noteq> None"
    by (auto simp add: linvCur_def)
  have "initialize (sr, wr) =
     Inr (sr\<lparr>parent := (if length (previous sr) = 1 then Some c2 else parent sr),
            parentHashers :=
              (if length (previous sr) = 1 then currentHashers sr else parentHashers sr),
            current := Some (SetPreviousID (last (previous sr))
                         (if length (previous sr) = 1 then fromObject c2 else c2)),
            target := Some \<lparr>sinkNo = created wr, sinkHeader = None, sinkPayload = []\<rparr>,
            currentHashers := hashersOf []\<rparr>,
          wr\<lparr>created := Suc (created wr)\<rparr>)"
    by (rule initialize_next) (simp_all add: sr ti)
  with ini have s1: "s1 = sr\<lparr>parent := (if length (previous sr) = 1 then Some c2 else parent sr),
            parentHashers :=
              (if length (previous sr) = 1 then currentHashers sr else parentHashers sr),
            current := Some (SetPreviousID (last (previous sr))
                         (if length (previous sr) = 1 then fromObject c2 else c2)),
            target := Some \<lparr>sinkNo = created wr, sinkHeader = None, sinkPayload = []\<rparr>,
            currentHashers := hashersOf []\<rparr>"
    and w1: "w1 = wr\<lparr>created := Suc (created wr)\<rparr>"
    by simp_all
  have one: "length (previous sr) = 1 \<longleftrightarrow> emitted w = []"
    by (simp add: sr prev)
  have em: "emitted w1 = emitted w @ [?e]" by (simp add: w1 wr)
  have "targetInit s1 = Some newTarget" by (simp add: s1 sr ti)
  moreover have "previous s1 = map (\<lambda>e. SelfID (eIDs e)) (emitted w1)"
    by (simp add: s1 sr em prev)
  moreover have "\<forall>e \<in> set (emitted w1). checksummed env e"
    using css cs by (simp add: em)
  moreover have "chained None (emitted w1)"
    using chn cprev c0prev by (simp add: em chained_snoc)
  moreover have "linvCur hdr (current s1) (parent s1) (emitted w1)"
    unfolding s1 one using par by (auto simp add: linvCur_def em sr setters)
  moreover have "currentHashers s1 = hashersOf (sinkPayload \<lparr>sinkNo = created wr, sinkHeader = None, sinkPayload = []\<rparr>)"
    by (simp add: s1)
  moreover have "parentHashers s1 = [] \<or> (\<exists>bs. parentHashers s1 = hashersOf bs)"
    unfolding s1 using l ch by (auto simp add: sr linv_def)
  moreover have "target s1 = Some \<lparr>sinkNo = created wr, sinkHeader = None, sinkPayload = []\<rparr>"
    by (simp add: s1)
  ultimately show ?thesis
    unfolding linv_def prod.case by simp
qed

lemma linv_atBoundary:
  assumes l: "linv env hdr (s, w)"
    and ab: "atBoundary env (s, w) = Inr (s1, w1)"
  shows "linv env hdr (s1, w1)"
proof (cases "written s mod maxSize s = 0")
  case False
  with ab l show ?thesis by (simp add: atBoundary_mid)
next
  case True
  show ?thesis
  proof (cases "0 < written s")
    case False
    with ab have "initialize (s, w) = Inr (s1, w1)"
      by (simp add: atBoundary_start)
    with l show ?thesis by (rule linv_init)
  next
    case pos: True
    from ab atBoundary_edge [OF pos True, of env w] obtain ids sr wr where
      "releaseCurrent env (s, w) = Inr (ids, sr, wr)" "initialize (sr, wr) = Inr (s1, w1)"
      by (auto split: sum.splits)
    with l show ?thesis by (rule linv_release_init)
  qed
qed

lemma linv_writeStep:
  assumes l: "linv env hdr (s, w)"
    and ws: "writeStep env chunk (s, w) = Inr (s', w')"
  shows "linv env hdr (s', w') \<and> target s' \<noteq> None"
proof -
  from ws obtain s1 w1 s2 w2 n where ab: "atBoundary env (s, w) = Inr (s1, w1)"
    and cw: "chunkWriter_Write env (take n chunk) (s1, w1) = Inr (s2, w2)"
    and s': "s' = s2\<lparr>written := (written s2 + n) mod 2 ^ 64\<rparr>" and w': "w' = w2"
    by (auto simp add: writeStep_def Let_def split: sum.splits if_splits)
  from linv_atBoundary [OF l ab] have l1: "linv env hdr (s1, w1)" .
  from linv_fill [OF l1 cw] show ?thesis
    by (simp add: s' w')
qed

lemma linv_writeChunk:
  assumes "linv env hdr (s, w)" and "writeChunk env chunk (s, w) = Inr (s', w')"
  shows "linv env hdr (s', w') \<and> target s' \<noteq> None"
  using assms
proof (induction "length chunk" arbitrary: chunk s w rule: less_induct)
  case less
  note l = less.prems(1) and wc = less.prems(2)
  from wc have M: "maxSize s \<noteq> 0"
    by (subst (asm) writeChunk_unfold) (auto split: if_splits)
  let ?E = "maxSize s - written s mod maxSize s"
  have E: "0 < ?E" using M by simp
  have u: "writeChunk env chunk (s, w) =
      (case writeStep env chunk (s, w) of
         Inl f \<Rightarrow> Inl f
       | Inr sw3 \<Rightarrow>
           if ?E < length chunk then writeChunk env (drop ?E chunk) sw3 else Inr sw3)"
    using writeChunk_unfold [of env chunk s w] M by simp
  from wc obtain s3 w3 where
    ws: "writeStep env chunk (s, w) = Inr (s3, w3)"
    and rest: "(if ?E < length chunk then writeChunk env (drop ?E chunk) (s3, w3)
               else Inr (s3, w3)) = Inr (s', w')"
    unfolding u by (cases "writeStep env chunk (s, w)") auto
  from linv_writeStep [OF l ws]
  have l3: "linv env hdr (s3, w3)" and t3: "target s3 \<noteq> None" by simp_all
  show ?case
  proof (cases "?E < length chunk")
    case True
    with rest have wc': "writeChunk env (drop ?E chunk) (s3, w3) = Inr (s', w')" by simp
    have "length (drop ?E chunk) < length chunk" using True E by simp
    from less.hyps [OF this l3 wc'] show ?thesis .
  next
    case False
    with rest l3 t3 show ?thesis by simp
  qed
qed

lemma linv_Writes:
  assumes "linv env hdr (s, w)" and "Writes env ps (s, w) = Inr (s', w')"
  shows "linv env hdr (s', w') \<and> (ps \<noteq> [] \<longrightarrow> target s' \<noteq> None)"
  using assms
proof (induction ps arbitrary: s w)
  case Nil
  then show ?case by simp
next
  case (Cons p ps)
  from Cons.prems(2) obtain s1 w1 where
    wc: "writeChunk env p (s, w) = Inr (s1, w1)"
    and rest: "Writes env ps (s1, w1) = Inr (s', w')"
    by (auto simp add: Write_def split: sum.splits)
  from linv_writeChunk [OF Cons.prems(1) wc]
  have l1: "linv env hdr (s1, w1)" and t1: "target s1 \<noteq> None" by simp_all
  from Cons.IH [OF l1 rest]
  have l': "linv env hdr (s', w')" and k: "ps \<noteq> [] \<longrightarrow> target s' \<noteq> None" by simp_all
  have "target s' \<noteq> None"
  proof (cases ps)
    case Nil
    with rest t1 show ?thesis by simp
  next
    case (Cons a list)
    with k show ?thesis by simp
  qed
  with l' show ?case by simp
qed

section \<open>What Close emits\<close>

lemma writeHashes_current_back:
  "writeHashes env hs s = Inr s' \<Longrightarrow> current s' = Some c'
     \<Longrightarrow> \<exists>c. current s = Some c \<and> sameLinks c c'"
proof (cases hs)
  case Nil
  assume "writeHashes env hs s = Inr s'" "current s' = Some c'"
  with Nil show ?thesis by auto
next
  case (Cons h hs')
  assume a: "writeHashes env hs s = Inr s'" and b: "current s' = Some c'"
  from a Cons have "current s \<noteq> None"
    by (intro writeHashes_needs_current [OF a]) simp
  then obtain c where c: "current s = Some c" by auto
  from writeHashes_current [OF a c] b show ?thesis
    using c by auto
qed

lemma finalizeParent_Inr:
  assumes "finalizeParent env s = Inr sp"
  obtains c0 p0 c' where "current s = Some c0" "parent s = Some p0"
    "sameLinks c0 c'"
    "sp = s\<lparr>parent := Some (SetPayloadSize (written s) p0),
              current := Some (SetParent (SetPayloadSize (written s) p0) c')\<rparr>"
proof -
  from assms obtain s1 where s1: "writeHashes env (parentHashers s) s = Inr s1"
    by (auto simp add: finalizeParent_def split: sum.splits)
  then obtain x where fr: "s1 = s\<lparr>current := x\<rparr>"
    by (rule writeHashes_change)
  from assms s1 obtain p0 where p0: "parent s1 = Some p0"
    by (auto simp add: finalizeParent_def split: option.splits)
  from assms s1 p0 obtain c' where c': "current s1 = Some c'"
    and sp: "sp = s1\<lparr>parent := Some (SetPayloadSize (written s1) p0),
              current := Some (SetParent (SetPayloadSize (written s1) p0) c')\<rparr>"
    by (auto simp add: finalizeParent_def Let_def split: option.splits)
  from writeHashes_current_back [OF s1 c'] obtain c0 where
    c0: "current s = Some c0" "sameLinks c0 c'" by blast
  show thesis
    by (rule that [OF c0(1) _ c0(2)]) (use p0 sp fr in simp_all)
qed

lemma initializeLinking_Inr:
  assumes "initializeLinking s = Inr s'"
  obtains c pp where "current s = Some c" "GetParent c = Some pp"
    "s' = s\<lparr>current := Some (SetParent (SetID (GetID pp) NewRaw)
                              (SetChildren (previous s) (fromObject c)))\<rparr>"
  using assms
  by (auto simp add: initializeLinking_def Let_def split: option.splits)

lemma Close_single:
  assumes "previous s = []" "Close env (s, w) = Inr (ids, s', w')"
  obtains t c0 c c2 where "target s = Some t" "current s = Some c0" "sameLinks c0 c"
    "emitted w' = emitted w @
       [\<lparr>eSink = sinkNo t, eHeader = Some c, ePayload = sinkPayload t, eIDs = ids, eLeft = c2\<rparr>]"
    "previous s' = [SelfID ids]"
proof -
  from assms have rc: "releaseCurrent env (s, w) = Inr (ids, s', w')"
    by (simp add: Close_def release_True)
  then obtain t c c1 c2 s2 where
    wh: "writeHashes env (currentHashers s) s = Inr s2"
    and t: "target s = Some t"
    and c: "current s2 = Some c"
    and s': "s' = s\<lparr>target := Some (t\<lparr>sinkHeader := Some c\<rparr>), current := Some c2,
                  previous := previous s @ [SelfID ids]\<rparr>"
    and w': "w' = w\<lparr>emitted := emitted w @
                  [\<lparr>eSink = sinkNo t, eHeader = Some c, ePayload = sinkPayload t,
                    eIDs = ids, eLeft = c2\<rparr>]\<rparr>"
    by (rule releaseCurrent_Inr)
  from writeHashes_current_back [OF wh c] obtain c0 where
    c0: "current s = Some c0" "sameLinks c0 c" by blast
  show thesis
    by (rule that [OF t c0]) (simp_all add: w' s' assms(1))
qed

lemma Close_multi:
  assumes "previous s \<noteq> []" "targetInit s = Some newTarget"
    and "Close env (s, w) = Inr (ids, s', w')"
  obtains t c0 p0 c c2 pp lh ids' l2 where
    "target s = Some t" "current s = Some c0" "parent s = Some p0"
    "GetParent c = Some (SetPayloadSize (written s) p0)"
    "GetPreviousID c = GetPreviousID c0"
    "GetParent c2 = Some pp"
    "GetChildren lh = previous s @ [SelfID ids]"
    "GetParent lh = Some (SetID (GetID pp) NewRaw)"
    "emitted w' = emitted w @
       [\<lparr>eSink = sinkNo t, eHeader = Some c, ePayload = sinkPayload t, eIDs = ids, eLeft = c2\<rparr>,
        \<lparr>eSink = created w, eHeader = Some lh, ePayload = [], eIDs = ids', eLeft = l2\<rparr>]"
    "previous s' = previous s @ [SelfID ids, SelfID ids']"
proof -
  from assms(1,3) obtain sp s3 w1 s4 s5 w5 ids' where
    fp: "finalizeParent env s = Inr sp"
    and rc: "releaseCurrent env (sp, w) = Inr (ids, s3, w1)"
    and il: "initializeLinking s3 = Inr s4"
    and ic: "initializeCurrent (s4, w1) = Inr (s5, w5)"
    and rl: "releaseCurrent env (s5, w5) = Inr (ids', s', w')"
    by (auto simp add: Close_def release_True split: sum.splits)
  from fp obtain c0 p0 c' where c0: "current s = Some c0" and p0: "parent s = Some p0"
    and sl: "sameLinks c0 c'"
    and sp: "sp = s\<lparr>parent := Some (SetPayloadSize (written s) p0),
              current := Some (SetParent (SetPayloadSize (written s) p0) c')\<rparr>"
    by (rule finalizeParent_Inr)
  from rc obtain t c c1 c2 s2 where
    wh: "writeHashes env (currentHashers sp) sp = Inr s2"
    and t: "target sp = Some t"
    and c: "current s2 = Some c"
    and s3: "s3 = sp\<lparr>target := Some (t\<lparr>sinkHeader := Some c\<rparr>), current := Some c2,
                  previous := previous sp @ [SelfID ids]\<rparr>"
    and w1: "w1 = w\<lparr>emitted := emitted w @
                  [\<lparr>eSink = sinkNo t, eHeader = Some c, ePayload = sinkPayload t,
                    eIDs = ids, eLeft = c2\<rparr>]\<rparr>"
    by (rule releaseCurrent_Inr)
  have "current sp = Some (SetParent (SetPayloadSize (written s) p0) c')"
    by (simp add: sp)
  from writeHashes_current [OF wh this] c
  have slc: "sameLinks (SetParent (SetPayloadSize (written s) p0) c') c" by simp
  from il obtain cl pp where cl: "current s3 = Some cl" and pp: "GetParent cl = Some pp"
    and s4: "s4 = s3\<lparr>current := Some (SetParent (SetID (GetID pp) NewRaw)
                              (SetChildren (previous s3) (fromObject cl)))\<rparr>"
    by (rule initializeLinking_Inr)
  from cl have cl2: "cl = c2" by (simp add: s3)
  have ti4: "targetInit s4 = Some newTarget"
    by (simp add: s4 s3 sp assms(2))
  from ic have s5: "s5 = s4\<lparr>target := Some \<lparr>sinkNo = created w1, sinkHeader = None, sinkPayload = []\<rparr>,
              currentHashers := hashersOf []\<rparr>"
    and w5: "w5 = w1\<lparr>created := Suc (created w1)\<rparr>"
    by (simp_all add: initializeCurrent_newTarget [OF ti4])
  from rl obtain tl lh lh1 l2 sl2 where
    whl: "writeHashes env (currentHashers s5) s5 = Inr sl2"
    and tl: "target s5 = Some tl"
    and lh: "current sl2 = Some lh"
    and s': "s' = s5\<lparr>target := Some (tl\<lparr>sinkHeader := Some lh\<rparr>), current := Some l2,
                  previous := previous s5 @ [SelfID ids']\<rparr>"
    and w': "w' = w5\<lparr>emitted := emitted w5 @
                  [\<lparr>eSink = sinkNo tl, eHeader = Some lh, ePayload = sinkPayload tl,
                    eIDs = ids', eLeft = l2\<rparr>]\<rparr>"
    by (rule releaseCurrent_Inr)
  have "current s5 = Some (SetParent (SetID (GetID pp) NewRaw)
                              (SetChildren (previous s3) (fromObject cl)))"
    by (simp add: s5 s4)
  from writeHashes_current [OF whl this] lh
  have sll: "sameLinks (SetParent (SetID (GetID pp) NewRaw)
                              (SetChildren (previous s3) (fromObject cl))) lh" by simp
  from tl have tl': "tl = \<lparr>sinkNo = created w1, sinkHeader = None, sinkPayload = []\<rparr>"
    by (simp add: s5)
  show thesis
  proof (rule that [OF _ c0 p0, of t c c2 pp lh ids' l2])
    show "target s = Some t" using t by (simp add: sp)
    show "GetParent c = Some (SetPayloadSize (written s) p0)"
      using slc by (simp add: sameLinks_def setters)
    show "GetPreviousID c = GetPreviousID c0"
      using slc sl by (simp add: sameLinks_def setters)
    show "GetParent c2 = Some pp" using pp cl2 by simp
    show "GetChildren lh = previous s @ [SelfID ids]"
      using sll by (simp add: sameLinks_def setters s3 sp)
    show "GetParent lh = Some (SetID (GetID pp) NewRaw)"
      using sll by (simp add: sameLinks_def setters)
    show "emitted w' = emitted w @
       [\<lparr>eSink = sinkNo t, eHeader = Some c, ePayload = sinkPayload t, eIDs = ids, eLeft = c2\<rparr>,
        \<lparr>eSink = created w, eHeader = Some lh, ePayload = [], eIDs = ids', eLeft = l2\<rparr>]"
      by (simp add: w' w5 w1 tl')
    show "previous s' = previous s @ [SelfID ids, SelfID ids']"
      by (simp add: s' s5 s4 s3 sp)
  qed
qed

section \<open>The shape of a finished stream\<close>

text \<open>The header of a stream's first object, before any sink has seen it.\<close>

lemma fromObject_links:
  "GetPreviousID (fromObject h) = None" "GetParent (fromObject h) = None"
  "GetChildren (fromObject h) = []"
  by (simp_all add: fromObject_def NewRaw_def setters)

lemma stream_Inr:
  assumes "stream env M (Some newTarget) hdr ps = Inr (ids, s, w)"
  obtains s1 w1 where
    "Writes env ps (WriteHeader hdr (NewPayloadSizeLimiter M (Some newTarget)), emptyWorld)
       = Inr (s1, w1)"
    "Close env (s1, w1) = Inr (ids, s, w)"
    "linv env hdr (s1, w1)"
proof -
  from assms obtain s1 w1 where
    a: "Writes env ps (WriteHeader hdr (NewPayloadSizeLimiter M (Some newTarget)), emptyWorld)
       = Inr (s1, w1)"
    and b: "Close env (s1, w1) = Inr (ids, s, w)"
    by (auto simp add: stream_def split: sum.splits)
  from linv_Writes [OF linv_initial a] have "linv env hdr (s1, w1)" by simp
  with a b show thesis by (rule that)
qed

lemma stream_shape:
  assumes "stream env M (Some newTarget) hdr ps = Inr (ids, s, w)"
  obtains (single) e h where "emitted w = [e]" "eIDs e = ids" "eHeader e = Some h"
      "GetPreviousID h = None" "GetParent h = None" "GetChildren h = []"
  | (multi) es e l h p lh pp where "es \<noteq> []" "emitted w = es @ [e, l]" "eIDs e = ids"
      "chained None (es @ [e])" "eHeader e = Some h" "GetParent h = Some p"
      "eHeader l = Some lh" "ePayload l = []"
      "GetChildren lh = map (\<lambda>x. SelfID (eIDs x)) (es @ [e])"
      "GetParent (eLeft e) = Some pp" "GetParent lh = Some (SetID (GetID pp) NewRaw)"
proof -
  from assms obtain s1 w1 where
    cl: "Close env (s1, w1) = Inr (ids, s, w)" and l: "linv env hdr (s1, w1)"
    by (rule stream_Inr)
  from l have ti: "targetInit s1 = Some newTarget"
    and prev: "previous s1 = map (\<lambda>e. SelfID (eIDs e)) (emitted w1)"
    and cur: "linvCur hdr (current s1) (parent s1) (emitted w1)"
    and chn: "chained None (emitted w1)"
    by (simp_all add: linv_def)
  show thesis
  proof (cases "emitted w1 = []")
    case True
    with prev have p0: "previous s1 = []" by simp
    obtain t c0 c c2 where
      "target s1 = Some t" and
      c0: "current s1 = Some c0" and sl: "sameLinks c0 c"
      and em: "emitted w = emitted w1 @
       [\<lparr>eSink = sinkNo t, eHeader = Some c, ePayload = sinkPayload t, eIDs = ids, eLeft = c2\<rparr>]"
      and "previous s = [SelfID ids]"
      by (rule Close_single [OF p0 cl])
    from cur c0 True have "c0 = fromObject hdr" by (simp add: linvCur_def)
    with sl have "GetPreviousID c = None" "GetParent c = None" "GetChildren c = []"
      by (simp_all add: sameLinks_def fromObject_links)
    with em True show thesis
      by (rule_tac single [of "\<lparr>eSink = sinkNo t, eHeader = Some c, ePayload = sinkPayload t,
             eIDs = ids, eLeft = c2\<rparr>" c]) simp_all
  next
    case False
    with prev have p0: "previous s1 \<noteq> []" by simp
    obtain t c0 p0' c c2 pp lh ids' l2 where
      "target s1 = Some t" and
      c0: "current s1 = Some c0" and "parent s1 = Some p0'"
      and gp: "GetParent c = Some (SetPayloadSize (written s1) p0')"
      and gprev: "GetPreviousID c = GetPreviousID c0"
      and gpp: "GetParent c2 = Some pp"
      and gch: "GetChildren lh = previous s1 @ [SelfID ids]"
      and glp: "GetParent lh = Some (SetID (GetID pp) NewRaw)"
      and em: "emitted w = emitted w1 @
       [\<lparr>eSink = sinkNo t, eHeader = Some c, ePayload = sinkPayload t, eIDs = ids, eLeft = c2\<rparr>,
        \<lparr>eSink = created w1, eHeader = Some lh, ePayload = [], eIDs = ids', eLeft = l2\<rparr>]"
      and "previous s = previous s1 @ [SelfID ids, SelfID ids']"
      by (rule Close_multi [OF p0 ti cl])
    let ?e = "\<lparr>eSink = sinkNo t, eHeader = Some c, ePayload = sinkPayload t, eIDs = ids,
                eLeft = c2\<rparr>"
    let ?l = "\<lparr>eSink = created w1, eHeader = Some lh, ePayload = [], eIDs = ids', eLeft = l2\<rparr>"
    from cur c0 False have "GetPreviousID c0 = Some (SelfID (eIDs (last (emitted w1))))"
      by (simp add: linvCur_def)
    with chn gprev False have ch': "chained None (emitted w1 @ [?e])"
      by (simp add: chained_snoc)
    show thesis
      by (rule multi [of "emitted w1" ?e ?l c _ lh pp, OF False em _ ch' _ gp])
         (simp_all add: gch prev gpp glp)
  qed
qed

lemma chunksOf_single: "emitted w = [e] \<Longrightarrow> chunksOf w = [e] \<and> linkingOf w = None"
  by (simp add: chunksOf_def linkingOf_def)

lemma chunksOf_multi:
  "es \<noteq> [] \<Longrightarrow> emitted w = es @ [e, l] \<Longrightarrow> chunksOf w = es @ [e] \<and> linkingOf w = Some l"
  by (simp add: chunksOf_def linkingOf_def butlast_append)

lemma chained_nth:
  "chained prev es \<Longrightarrow> i < length es \<Longrightarrow>
     \<exists>h. eHeader (es ! i) = Some h \<and>
       GetPreviousID h = (if i = 0 then prev else Some (SelfID (eIDs (es ! (i - 1)))))"
proof (induction es arbitrary: prev i)
  case Nil
  then show ?case by simp
next
  case (Cons e es)
  show ?case
  proof (cases i)
    case 0
    with Cons.prems show ?thesis by auto
  next
    case (Suc j)
    with Cons.prems have "chained (Some (SelfID (eIDs e))) es" "j < length es" by simp_all
    from Cons.IH [OF this] Suc show ?thesis
      by (cases j) auto
  qed
qed

section \<open>The sizes of the emitted objects\<close>

lemma Writes_Nil_target:
  "Writes env [] sw = Inr (s1, w1) \<Longrightarrow> sw = (s1, w1)"
  by simp

lemma Close_needs_target:
  assumes "Close env (s1, w1) = Inr r"
  shows "target s1 \<noteq> None"
proof -
  obtain ids s w where r: "r = (ids, s, w)" by (cases r)
  show ?thesis
  proof (cases "previous s1 = []")
    case True
    with assms r have "releaseCurrent env (s1, w1) = Inr (ids, s, w)"
      by (simp add: Close_def release_True)
    then show ?thesis by (auto elim!: releaseCurrent_Inr)
  next
    case False
    with assms r obtain sp s3 w3 where fp: "finalizeParent env s1 = Inr sp"
      and rc: "releaseCurrent env (sp, w1) = Inr (ids, s3, w3)"
      by (auto simp add: Close_def release_True split: sum.splits)
    from fp have "target sp = target s1"
      by (auto elim!: finalizeParent_Inr)
    moreover from rc have "target sp \<noteq> None"
      by (auto elim!: releaseCurrent_Inr)
    ultimately show ?thesis by simp
  qed
qed

lemma stream_Inr_pos:
  assumes "stream env M ti hdr ps = Inr r"
  shows "ps \<noteq> []" and "0 < M"
proof -
  let ?s0 = "WriteHeader hdr (NewPayloadSizeLimiter M ti)"
  from assms obtain s1 w1 where
    a: "Writes env ps (?s0, emptyWorld) = Inr (s1, w1)"
    and b: "Close env (s1, w1) = Inr r"
    by (auto simp add: stream_def split: sum.splits)
  from Close_needs_target [OF b] have t: "target s1 \<noteq> None" .
  show ne: "ps \<noteq> []"
  proof
    assume "ps = []"
    with a have "s1 = ?s0" by simp
    with t show False by (simp add: WriteHeader_def NewPayloadSizeLimiter_def)
  qed
  show "0 < M"
  proof (rule ccontr)
    assume "\<not> 0 < M"
    then have "maxSize ?s0 = 0" by (simp add: WriteHeader_def NewPayloadSizeLimiter_def)
    then have "writeChunk env p (?s0, emptyWorld) = Inl (Panic DivideByZero)" for p
      by (simp add: writeChunk_unfold)
    with a ne show False by (cases ps) (simp_all add: Write_def)
  qed
qed



section \<open>Digest lengths\<close>

lemma checksumPanic_simps [simp]:
  "checksumPanic (Panic (WrongChecksumLength a b))"
  "\<not> checksumPanic (Panic NilDereference)"
  "\<not> checksumPanic (Panic DivideByZero)"
  "\<not> checksumPanic (Error e)"
  by (simp_all add: checksumPanic_def)

lemma checksumPanic_wrapped [simp]: "checksumPanic (wrapped msg f) = checksumPanic f"
  by (cases f) (simp_all add: checksumPanic_def)

lemma writeHashes_hashersOf_fails:
  assumes "writeHashes env (hashersOf bs) s = Inl f"
  shows "f = Panic (WrongChecksumLength (length (sha256_Sum env bs)) 32)
           \<and> length (sha256_Sum env bs) \<noteq> 32
         \<or> f = Panic NilDereference
         \<or> f = Panic (WrongChecksumLength (length (tz_Sum env bs)) 64)
           \<and> length (tz_Sum env bs) \<noteq> 64"
  using assms
  by (auto simp add: hashersOf_def split: sum.splits if_splits option.splits)

lemma writeHashes_no_checksumPanic:
  assumes "goodDigests env" "hs = [] \<or> (\<exists>bs. hs = hashersOf bs)"
    and "writeHashes env hs s = Inl f"
  shows "\<not> checksumPanic f"
proof -
  from assms(2,3) obtain bs where "writeHashes env (hashersOf bs) s = Inl f"
    by auto
  from writeHashes_hashersOf_fails [OF this] assms(1) show ?thesis
    by (auto simp add: goodDigests_def)
qed

lemma finalizeParent_no_checksumPanic:
  assumes "goodDigests env" "parentHashers s = [] \<or> (\<exists>bs. parentHashers s = hashersOf bs)"
    and "finalizeParent env s = Inl f"
  shows "\<not> checksumPanic f"
proof (cases "writeHashes env (parentHashers s) s")
  case (Inl g)
  with assms(3) have "f = g" by (simp add: finalizeParent_def)
  with writeHashes_no_checksumPanic [OF assms(1,2) Inl] show ?thesis by simp
next
  case (Inr s1)
  with assms(3) show ?thesis
    by (auto simp add: finalizeParent_def Let_def split: option.splits)
qed

lemma releaseCurrent_no_checksumPanic:
  assumes "goodDigests env" "currentHashers s = [] \<or> (\<exists>bs. currentHashers s = hashersOf bs)"
    and "releaseCurrent env (s, w) = Inl f"
  shows "\<not> checksumPanic f"
proof (cases "writeHashes env (currentHashers s) s")
  case (Inl g)
  with assms(3) have "f = g" by (simp add: releaseCurrent_def)
  with writeHashes_no_checksumPanic [OF assms(1,2) Inl] show ?thesis by simp
next
  case (Inr s1)
  with assms(3) show ?thesis
    by (auto simp add: releaseCurrent_def split: option.splits sum.splits)
qed

lemma initializeCurrent_no_checksumPanic:
  "initializeCurrent sw = Inl f \<Longrightarrow> \<not> checksumPanic f"
  by (cases sw) (auto simp add: initializeCurrent_def split: option.splits prod.splits)

lemma initialize_no_checksumPanic:
  "initialize sw = Inl f \<Longrightarrow> \<not> checksumPanic f"
  by (cases sw)
     (auto simp add: initialize_def Let_def split: if_splits sum.splits option.splits
        dest: initializeCurrent_no_checksumPanic)

lemma initializeLinking_no_checksumPanic:
  "initializeLinking s = Inl f \<Longrightarrow> \<not> checksumPanic f"
  by (auto simp add: initializeLinking_def Let_def split: option.splits)

lemma chunkWriter_Write_no_checksumPanic:
  "chunkWriter_Write env p sw = Inl f \<Longrightarrow> \<not> checksumPanic f"
  by (cases sw) (auto simp add: chunkWriter_Write_def split: option.splits sum.splits)

lemma linv_hashers:
  assumes "linv env hdr (s, w)"
  shows "currentHashers s = [] \<or> (\<exists>bs. currentHashers s = hashersOf bs)"
    and "parentHashers s = [] \<or> (\<exists>bs. parentHashers s = hashersOf bs)"
  using assms by (cases "target s"; auto simp add: linv_def)+

lemma atBoundary_no_checksumPanic:
  assumes g: "goodDigests env" and l: "linv env hdr (s, w)"
    and ab: "atBoundary env (s, w) = Inl f"
  shows "\<not> checksumPanic f"
proof (cases "written s mod maxSize s = 0")
  case False
  with ab show ?thesis by (simp add: atBoundary_mid)
next
  case True
  show ?thesis
  proof (cases "0 < written s")
    case False
    with ab have "initialize (s, w) = Inl f" by (simp add: atBoundary_start)
    then show ?thesis by (rule initialize_no_checksumPanic)
  next
    case pos: True
    note u = atBoundary_edge [OF pos True, of env w]
    show ?thesis
    proof (cases "releaseCurrent env (s, w)")
      case (Inl g')
      with ab u have "f = wrapped ''could not release object'' g'" by simp
      with releaseCurrent_no_checksumPanic [OF g linv_hashers(1) [OF l] Inl]
      show ?thesis by simp
    next
      case (Inr r)
      with ab u have "initialize (snd r) = Inl f" by (cases r) simp
      then show ?thesis by (rule initialize_no_checksumPanic)
    qed
  qed
qed

lemma writeStep_no_checksumPanic:
  assumes g: "goodDigests env" and l: "linv env hdr (s, w)"
    and ws: "writeStep env chunk (s, w) = Inl f"
  shows "\<not> checksumPanic f"
proof (cases "atBoundary env (s, w)")
  case (Inl g')
  with ws have "f = g'" by (simp add: writeStep_def)
  with atBoundary_no_checksumPanic [OF g l Inl] show ?thesis by simp
next
  case (Inr sw1)
  with ws show ?thesis
    by (cases sw1)
       (auto simp add: writeStep_def Let_def split: if_splits sum.splits
          dest: chunkWriter_Write_no_checksumPanic)
qed

lemma writeChunk_no_checksumPanic:
  assumes "goodDigests env" and "linv env hdr (s, w)"
    and "writeChunk env chunk (s, w) = Inl f"
  shows "\<not> checksumPanic f"
  using assms
proof (induction "length chunk" arbitrary: chunk s w rule: less_induct)
  case less
  note g = less.prems(1) and l = less.prems(2) and wc = less.prems(3)
  show ?case
  proof (cases "maxSize s = 0")
    case True
    with wc show ?thesis by (auto simp add: writeChunk_unfold)
  next
    case M: False
    let ?E = "maxSize s - written s mod maxSize s"
    have E: "0 < ?E" using M by simp
    have u: "writeChunk env chunk (s, w) =
      (case writeStep env chunk (s, w) of
         Inl f \<Rightarrow> Inl f
       | Inr sw3 \<Rightarrow>
           if ?E < length chunk then writeChunk env (drop ?E chunk) sw3 else Inr sw3)"
      using writeChunk_unfold [of env chunk s w] M by simp
    show ?thesis
    proof (cases "writeStep env chunk (s, w)")
      case (Inl g')
      with wc u have "f = g'" by simp
      with writeStep_no_checksumPanic [OF g l Inl] show ?thesis by simp
    next
      case (Inr sw3)
      obtain s3 w3 where sw3: "sw3 = (s3, w3)" by (cases sw3)
      from linv_writeStep [OF l Inr [unfolded sw3]]
      have l3: "linv env hdr (s3, w3)" by simp
      from wc u Inr sw3 have t: "?E < length chunk"
        and wc': "writeChunk env (drop ?E chunk) (s3, w3) = Inl f"
        by (auto split: if_splits)
      have "length (drop ?E chunk) < length chunk" using t E by simp
      from less.hyps [OF this g l3 wc'] show ?thesis .
    qed
  qed
qed

lemma Writes_no_checksumPanic:
  assumes "goodDigests env" and "linv env hdr (s, w)"
    and "Writes env ps (s, w) = Inl f"
  shows "\<not> checksumPanic f"
  using assms
proof (induction ps arbitrary: s w)
  case Nil
  then show ?case by simp
next
  case (Cons p ps)
  show ?case
  proof (cases "writeChunk env p (s, w)")
    case (Inl g')
    with Cons.prems(3) have "f = g'" by (simp add: Write_def)
    with writeChunk_no_checksumPanic [OF Cons.prems(1,2) Inl] show ?thesis by simp
  next
    case (Inr sw1)
    obtain s1 w1 where sw1: "sw1 = (s1, w1)" by (cases sw1)
    from linv_writeChunk [OF Cons.prems(2) Inr [unfolded sw1]]
    have l1: "linv env hdr (s1, w1)" by simp
    from Cons.prems(3) Inr sw1 have "Writes env ps (s1, w1) = Inl f"
      by (simp add: Write_def)
    from Cons.IH [OF Cons.prems(1) l1 this] show ?thesis .
  qed
qed

lemma releaseCurrent_checksummed:
  assumes rc: "releaseCurrent env (s, w) = Inr (ids, s', w')"
    and ch: "\<forall>t. target s = Some t \<longrightarrow> currentHashers s = hashersOf (sinkPayload t)"
    and old: "\<forall>e \<in> set (emitted w). checksummed env e"
  shows "\<forall>e \<in> set (emitted w'). checksummed env e"
proof -
  from rc obtain t c c1 c2 s2 where
    wh: "writeHashes env (currentHashers s) s = Inr s2"
    and t: "target s = Some t"
    and c: "current s2 = Some c"
    and "onWriteHeader env (sinkNo t) c = Inr c1"
    and "onClose env (sinkNo t) c1 (sinkPayload t) = Inr (ids, c2)"
    and "s' = s\<lparr>target := Some (t\<lparr>sinkHeader := Some c\<rparr>), current := Some c2,
                  previous := previous s @ [SelfID ids]\<rparr>"
    and w': "w' = w\<lparr>emitted := emitted w @
                  [\<lparr>eSink = sinkNo t, eHeader = Some c, ePayload = sinkPayload t,
                    eIDs = ids, eLeft = c2\<rparr>]\<rparr>"
    by (rule releaseCurrent_Inr)
  from ch t have "currentHashers s = hashersOf (sinkPayload t)" by simp
  with wh obtain c0 where "current s = Some c0"
    and c': "current s2 = Some (SetPayloadHomomorphicHash (TillichZemor (tz_Sum env (sinkPayload t)))
                          (SetPayloadChecksum (SHA256 (sha256_Sum env (sinkPayload t))) c0))"
    and l32: "length (sha256_Sum env (sinkPayload t)) = 32"
    and l64: "length (tz_Sum env (sinkPayload t)) = 64"
    by (auto elim!: writeHashes_hashersOf)
  from c c' have "checksummed env \<lparr>eSink = sinkNo t, eHeader = Some c, ePayload = sinkPayload t,
                    eIDs = ids, eLeft = c2\<rparr>"
    by (auto simp add: checksummed_def l32 l64 setters)
  with old show ?thesis by (simp add: w')
qed

lemma Close_checksummed:
  assumes l: "linv env hdr (s1, w1)" and cl: "Close env (s1, w1) = Inr (ids, s, w)"
  shows "\<forall>e \<in> set (emitted w). checksummed env e"
proof -
  from l have ti: "targetInit s1 = Some newTarget"
    and old: "\<forall>e \<in> set (emitted w1). checksummed env e"
    by (simp_all add: linv_def)
  from l have ch: "\<forall>t. target s1 = Some t \<longrightarrow> currentHashers s1 = hashersOf (sinkPayload t)"
    by (auto simp add: linv_def)
  show ?thesis
  proof (cases "previous s1 = []")
    case True
    with cl have "releaseCurrent env (s1, w1) = Inr (ids, s, w)"
      by (simp add: Close_def release_True)
    from releaseCurrent_checksummed [OF this ch old] show ?thesis .
  next
    case False
    with cl obtain sp s3 w3 s4 s5 w5 ids' where
      fp: "finalizeParent env s1 = Inr sp"
      and rc: "releaseCurrent env (sp, w1) = Inr (ids, s3, w3)"
      and il: "initializeLinking s3 = Inr s4"
      and ic: "initializeCurrent (s4, w3) = Inr (s5, w5)"
      and rl: "releaseCurrent env (s5, w5) = Inr (ids', s, w)"
      by (auto simp add: Close_def release_True split: sum.splits)
    from fp have sp: "target sp = target s1" "currentHashers sp = currentHashers s1"
      "targetInit sp = targetInit s1"
      by (auto elim!: finalizeParent_Inr)
    with ch have chp: "\<forall>t. target sp = Some t \<longrightarrow> currentHashers sp = hashersOf (sinkPayload t)"
      by simp
    from releaseCurrent_checksummed [OF rc chp old]
    have o3: "\<forall>e \<in> set (emitted w3). checksummed env e" .
    from releaseCurrent_frame [OF rc] sp ti have "targetInit s3 = Some newTarget" by simp
    with il have ti4: "targetInit s4 = Some newTarget"
      by (auto elim!: initializeLinking_Inr)
    from ic initializeCurrent_newTarget [OF ti4, of w3]
    have s5: "target s5 = Some \<lparr>sinkNo = created w3, sinkHeader = None, sinkPayload = []\<rparr>"
      "currentHashers s5 = hashersOf []" and w5: "emitted w5 = emitted w3"
      by auto
    then have ch5: "\<forall>t. target s5 = Some t \<longrightarrow> currentHashers s5 = hashersOf (sinkPayload t)"
      by simp
    from o3 w5 have o5: "\<forall>e \<in> set (emitted w5). checksummed env e" by simp
    from releaseCurrent_checksummed [OF rl ch5 o5] show ?thesis .
  qed
qed

lemma Close_no_checksumPanic:
  assumes g: "goodDigests env" and l: "linv env hdr (s1, w1)"
    and cl: "Close env (s1, w1) = Inl f"
  shows "\<not> checksumPanic f"
proof (cases "previous s1 = []")
  case True
  with cl have "releaseCurrent env (s1, w1) = Inl f"
    by (simp add: Close_def release_True)
  from releaseCurrent_no_checksumPanic [OF g linv_hashers(1) [OF l] this] show ?thesis .
next
  case False
  from l have ti: "targetInit s1 = Some newTarget" by (simp add: linv_def)
  note u = release_True [of env s1 w1]
  show ?thesis
  proof (cases "finalizeParent env s1")
    case (Inl g1)
    with cl False u have "f = g1" by (simp add: Close_def)
    with finalizeParent_no_checksumPanic [OF g linv_hashers(2) [OF l] Inl] show ?thesis by simp
  next
    case fp: (Inr sp)
    from fp have sp: "currentHashers sp = currentHashers s1" "targetInit sp = targetInit s1"
      by (auto elim!: finalizeParent_Inr)
    with linv_hashers(1) [OF l]
    have hp: "currentHashers sp = [] \<or> (\<exists>bs. currentHashers sp = hashersOf bs)" by simp
    show ?thesis
    proof (cases "releaseCurrent env (sp, w1)")
      case (Inl g2)
      with cl False u fp have "f = g2" by (simp add: Close_def)
      with releaseCurrent_no_checksumPanic [OF g hp Inl] show ?thesis by simp
    next
      case rc: (Inr r3)
      obtain ids s3 w3 where r3: "r3 = (ids, s3, w3)" by (cases r3)
      from releaseCurrent_frame [OF rc [unfolded r3]] sp ti
      have ti3: "targetInit s3 = Some newTarget" by simp
      show ?thesis
      proof (cases "initializeLinking s3")
        case (Inl g3)
        with cl False u fp rc r3 have "f = g3" by (simp add: Close_def)
        with initializeLinking_no_checksumPanic [OF Inl] show ?thesis by simp
      next
        case il: (Inr s4)
        from il ti3 have ti4: "targetInit s4 = Some newTarget"
          by (auto elim!: initializeLinking_Inr)
        note ic = initializeCurrent_newTarget [OF ti4, of w3]
        let ?s5 = "s4\<lparr>target := Some \<lparr>sinkNo = created w3, sinkHeader = None, sinkPayload = []\<rparr>,
              currentHashers := hashersOf []\<rparr>"
        let ?w5 = "w3\<lparr>created := Suc (created w3)\<rparr>"
        have h5: "currentHashers ?s5 = [] \<or> (\<exists>bs. currentHashers ?s5 = hashersOf bs)"
          by auto
        show ?thesis
        proof (cases "releaseCurrent env (?s5, ?w5)")
          case (Inl g5)
          with cl False u fp rc r3 il ic
          have "f = wrapped ''could not release linking object'' g5"
            by (simp add: Close_def)
          with releaseCurrent_no_checksumPanic [OF g h5 Inl] show ?thesis by simp
        next
          case (Inr r6)
          with cl False u fp rc r3 il ic show ?thesis
            by (cases r6) (simp add: Close_def)
        qed
      qed
    qed
  qed
qed

section \<open>Write granularity\<close>

lemma feed_feed: "feed q (feed p h) = feed (p @ q) h"
  by (cases "hasher h") (simp_all add: feed_def)

lemma chunkWriter_Write_append:
  assumes "reliableWrites env"
  shows "chunkWriter_Write env (p @ q) sw =
     (case chunkWriter_Write env p sw of
        Inl f \<Rightarrow> Inl f
      | Inr sw' \<Rightarrow> chunkWriter_Write env q sw')"
proof -
  obtain s w where sw: "sw = (s, w)" by (cases sw)
  show ?thesis
  proof (cases "target s")
    case None
    then show ?thesis by (simp add: sw chunkWriter_Write_def)
  next
    case (Some t)
    with assms show ?thesis
      by (simp add: sw chunkWriter_Write_def sink_Write_def reliableWrites_def feed_feed
            comp_def)
  qed
qed

lemma chunkWriter_Write_written:
  "chunkWriter_Write env p (s\<lparr>written := n\<rparr>, w) =
     (case chunkWriter_Write env p (s, w) of
        Inl f \<Rightarrow> Inl f
      | Inr (s', w') \<Rightarrow> Inr (s'\<lparr>written := n\<rparr>, w'))"
  by (simp add: chunkWriter_Write_def split: option.splits sum.splits)

lemma chunkWriter_Write_frame:
  "chunkWriter_Write env p (s, w) = Inr (s', w') \<Longrightarrow>
     maxSize s' = maxSize s \<and> written s' = written s"
  by (erule chunkWriter_Write_Inr) simp

lemma writeStep_frame:
  assumes "writeStep env x (s, w) = Inr (s', w')"
  shows "maxSize s' = maxSize s"
    and "written s' =
      (written s + min (length x) (maxSize s - written s mod maxSize s)) mod 2 ^ 64"
proof -
  from assms obtain s1 w1 s2 w2 where ab: "atBoundary env (s, w) = Inr (s1, w1)"
    and cw: "chunkWriter_Write env
        (take (min (length x) (maxSize s1 - written s1 mod maxSize s1)) x) (s1, w1) = Inr (s2, w2)"
    and s': "s' = s2\<lparr>written :=
        (written s2 + min (length x) (maxSize s1 - written s1 mod maxSize s1)) mod 2 ^ 64\<rparr>"
    by (auto simp add: writeStep_def Let_def split: sum.splits if_splits)
  from atBoundary_frame [OF ab] chunkWriter_Write_frame [OF cw]
  show "maxSize s' = maxSize s"
    and "written s' =
      (written s + min (length x) (maxSize s - written s mod maxSize s)) mod 2 ^ 64"
    by (simp_all add: s')
qed

text \<open>The cut of a long chunk does not depend on what follows the chunk.\<close>

lemma writeStep_append_long:
  assumes "maxSize s - written s mod maxSize s \<le> length a"
  shows "writeStep env (a @ b) (s, w) = writeStep env a (s, w)"
proof (cases "atBoundary env (s, w)")
  case (Inl f)
  then show ?thesis by (simp add: writeStep_def)
next
  case (Inr sw1)
  obtain s1 w1 where sw1: "sw1 = (s1, w1)" by (cases sw1)
  from atBoundary_frame [OF Inr [unfolded sw1]]
  have fr: "maxSize s1 = maxSize s" "written s1 = written s" by simp_all
  have m: "min (length a + length b) (maxSize s - written s mod maxSize s)
      = min (length a) (maxSize s - written s mod maxSize s)"
    using assms by simp
  show ?thesis
    using assms by (simp add: writeStep_def Inr sw1 fr m)
qed

lemma mid_not_boundary:
  fixes M n k :: nat
  assumes "0 < M" "0 < k" "k < M - n mod M"
  shows "(n + k) mod M \<noteq> 0" and "M - (n + k) mod M = M - n mod M - k"
proof -
  have "(n + k) mod M = (n mod M + k) mod M" by (simp add: mod_add_left_eq)
  also have "\<dots> = n mod M + k" using assms by simp
  finally have e: "(n + k) mod M = n mod M + k" .
  show "(n + k) mod M \<noteq> 0" using e assms by simp
  show "M - (n + k) mod M = M - n mod M - k" using e by simp
qed

lemma writeStep_at:
  assumes ab: "atBoundary env (s, w) = Inr (s1, w1)" and M: "maxSize s \<noteq> 0"
  shows "writeStep env x (s, w) =
     (case chunkWriter_Write env
             (take (min (length x) (maxSize s - written s mod maxSize s)) x) (s1, w1) of
        Inl f \<Rightarrow> Inl (wrapped ''could not write chunk to target'' f)
      | Inr (s2, w2) \<Rightarrow>
          Inr (s2\<lparr>written :=
                 (written s + min (length x) (maxSize s - written s mod maxSize s)) mod 2 ^ 64\<rparr>,
               w2))"
proof -
  from atBoundary_frame [OF ab]
  have fr: "maxSize s1 = maxSize s" "written s1 = written s" by simp_all
  let ?p = "take (min (length x) (maxSize s - written s mod maxSize s)) x"
  show ?thesis
  proof (cases "chunkWriter_Write env ?p (s1, w1)")
    case (Inl f)
    with M show ?thesis by (simp add: writeStep_def ab fr Let_def)
  next
    case (Inr sw2)
    obtain s2 w2 where sw2: "sw2 = (s2, w2)" by (cases sw2)
    from chunkWriter_Write_frame [OF Inr [unfolded sw2]] fr
    have "written s2 = written s" by simp
    with M Inr sw2 show ?thesis by (simp add: writeStep_def ab fr Let_def)
  qed
qed

text \<open>
  A short chunk followed by more bytes: the sink and the hashers get in one write what
  two writes would give them.
\<close>

lemma writeStep_append_short:
  assumes rel: "reliableWrites env" and M: "maxSize s \<noteq> 0" and a: "a \<noteq> []"
    and short: "length a < maxSize s - written s mod maxSize s"
    and nowrap: "written s + length a < 2 ^ 64"
  shows "writeStep env (a @ b) (s, w) =
     (case writeStep env a (s, w) of
        Inl f \<Rightarrow> Inl f
      | Inr sw' \<Rightarrow> writeStep env b sw')"
proof (cases "atBoundary env (s, w)")
  case (Inl f)
  then show ?thesis by (simp add: writeStep_def)
next
  case (Inr sw1)
  obtain s1 w1 where sw1: "sw1 = (s1, w1)" by (cases sw1)
  note ab = Inr [unfolded sw1]
  let ?M = "maxSize s"
  let ?E = "?M - written s mod ?M"
  let ?b' = "take (min (length b) (?E - length a)) b"
  have n1: "length a \<le> min (length a + length b) ?E" using short by simp
  have n2: "min (length a + length b) ?E - length a = min (length b) (?E - length a)"
    using short by arith
  have "take (min (length a + length b) ?E) (a @ b)
      = take (min (length a + length b) ?E) a
        @ take (min (length a + length b) ?E - length a) b"
    by (rule take_append)
  also have "take (min (length a + length b) ?E) a = a"
    using n1 by (rule take_all)
  finally have tk: "take (min (length (a @ b)) ?E) (a @ b) = a @ ?b'"
    by (simp only: n2 length_append)
  have mina: "min (length a) ?E = length a" using short by simp
  have tka: "take (min (length a) ?E) a = a" by (simp only: mina take_all order_refl)
  have nw: "(written s + length a) mod 2 ^ 64 = written s + length a"
    using nowrap by simp
  have pos: "0 < ?M" "0 < length a" using M a by simp_all
  note mb = mid_not_boundary [OF pos short]
  have tot: "min (length (a @ b)) ?E = length a + min (length b) (?E - length a)"
    using short by simp
  have tk': "take (length a + min (length b) (?E - length a)) (a @ b) = a @ ?b'"
    by simp
  \<comment> \<open>the two sides, as writes to the sink and the hashers\<close>
  have L: "writeStep env (a @ b) (s, w) =
     (case (case chunkWriter_Write env a (s1, w1) of
              Inl f \<Rightarrow> Inl f
            | Inr sw' \<Rightarrow> chunkWriter_Write env ?b' sw') of
        Inl f \<Rightarrow> Inl (wrapped ''could not write chunk to target'' f)
      | Inr (s2, w2) \<Rightarrow>
          Inr (s2\<lparr>written := (written s + (length a + min (length b) (?E - length a)))
                 mod 2 ^ 64\<rparr>, w2))"
    by (simp only: writeStep_at [OF ab M] tot tk' chunkWriter_Write_append [OF rel])
  have R: "writeStep env a (s, w) =
     (case chunkWriter_Write env a (s1, w1) of
        Inl f \<Rightarrow> Inl (wrapped ''could not write chunk to target'' f)
      | Inr (s2, w2) \<Rightarrow> Inr (s2\<lparr>written := written s + length a\<rparr>, w2))"
    by (simp only: writeStep_at [OF ab M] mina nw take_all order_refl)
  show ?thesis
  proof (cases "chunkWriter_Write env a (s1, w1)")
    case (Inl f)
    then show ?thesis by (simp add: L R)
  next
    case (Inr sw2)
    obtain s2 w2 where sw2: "sw2 = (s2, w2)" by (cases sw2)
    note cw = Inr [unfolded sw2]
    from chunkWriter_Write_frame [OF cw] atBoundary_frame [OF ab]
    have fr2: "maxSize s2 = maxSize s" "written s2 = written s" by simp_all
    let ?s3 = "s2\<lparr>written := written s + length a\<rparr>"
    have ab3: "atBoundary env (?s3, w2) = Inr (?s3, w2)"
      using mb(1) by (simp add: atBoundary_mid fr2)
    have M3: "maxSize ?s3 \<noteq> 0" using M by (simp add: fr2)
    have E3: "maxSize ?s3 - written ?s3 mod maxSize ?s3 = ?E - length a"
      using mb(2) by (simp add: fr2)
    have w3: "written ?s3 = written s + length a" by simp
    have R2: "writeStep env b (?s3, w2) =
       (case chunkWriter_Write env ?b' (?s3, w2) of
          Inl f \<Rightarrow> Inl (wrapped ''could not write chunk to target'' f)
        | Inr (s4, w4) \<Rightarrow>
            Inr (s4\<lparr>written := (written s + length a + min (length b) (?E - length a))
                   mod 2 ^ 64\<rparr>, w4))"
      by (simp only: writeStep_at [OF ab3 M3] E3) (simp only: w3)
    show ?thesis
    proof (cases "chunkWriter_Write env ?b' (s2, w2)")
      case (Inl f)
      then show ?thesis
        by (simp add: L R cw R2 chunkWriter_Write_written)
    next
      case (Inr sw4)
      obtain s4 w4 where sw4: "sw4 = (s4, w4)" by (cases sw4)
      with Inr show ?thesis
        by (simp add: L R cw R2 chunkWriter_Write_written add.assoc)
    qed
  qed
qed

lemma writeChunk_frame:
  assumes "writeChunk env x (s, w) = Inr (s', w')" and "written s + length x < 2 ^ 64"
  shows "maxSize s' = maxSize s \<and> written s' = written s + length x"
  using assms
proof (induction "length x" arbitrary: x s w rule: less_induct)
  case less
  note wc = less.prems(1) and nw = less.prems(2)
  from wc have M: "maxSize s \<noteq> 0"
    by (subst (asm) writeChunk_unfold) (auto split: if_splits)
  let ?E = "maxSize s - written s mod maxSize s"
  have E: "0 < ?E" using M by simp
  have u: "writeChunk env x (s, w) =
      (case writeStep env x (s, w) of
         Inl f \<Rightarrow> Inl f
       | Inr sw3 \<Rightarrow>
           if ?E < length x then writeChunk env (drop ?E x) sw3 else Inr sw3)"
    using writeChunk_unfold [of env x s w] M by simp
  from wc obtain s3 w3 where
    ws: "writeStep env x (s, w) = Inr (s3, w3)"
    and rest: "(if ?E < length x then writeChunk env (drop ?E x) (s3, w3)
               else Inr (s3, w3)) = Inr (s', w')"
    unfolding u by (cases "writeStep env x (s, w)") auto
  from writeStep_frame [OF ws]
  have m3: "maxSize s3 = maxSize s"
    and w3: "written s3 = (written s + min (length x) ?E) mod 2 ^ 64"
    by simp_all
  have "written s + min (length x) ?E < 2 ^ 64" using nw by (simp add: min_def)
  with w3 have w3': "written s3 = written s + min (length x) ?E" by simp
  show ?case
  proof (cases "?E < length x")
    case True
    with rest have wc': "writeChunk env (drop ?E x) (s3, w3) = Inr (s', w')" by simp
    have l: "length (drop ?E x) < length x" using True E by simp
    have nw': "written s3 + length (drop ?E x) < 2 ^ 64" using nw True w3' by simp
    from less.hyps [OF l wc' nw'] m3 w3' True show ?thesis by simp
  next
    case False
    with rest m3 w3' show ?thesis by auto
  qed
qed

text \<open>
  The law behind claim C4: a write of two chunks end to end is the write of the first
  followed by the write of the second, failures included, when neither chunk is empty,
  the sinks accept every write and the counter does not wrap.
\<close>

lemma writeChunk_append:
  assumes "reliableWrites env" and "a \<noteq> []" and "b \<noteq> []"
    and "written s + length a + length b < 2 ^ 64"
  shows "writeChunk env (a @ b) (s, w) =
     (case writeChunk env a (s, w) of
        Inl f \<Rightarrow> Inl f
      | Inr sw' \<Rightarrow> writeChunk env b sw')"
  using assms
proof (induction "length a" arbitrary: a s w rule: less_induct)
  case less
  note rel = less.prems(1) and a = less.prems(2) and b = less.prems(3)
    and nw = less.prems(4)
  show ?case
  proof (cases "maxSize s = 0")
    case True
    then show ?thesis by (simp add: writeChunk_unfold)
  next
    case M: False
    let ?E = "maxSize s - written s mod maxSize s"
    have E: "0 < ?E" using M by simp
    have uab: "writeChunk env (a @ b) (s, w) =
      (case writeStep env (a @ b) (s, w) of
         Inl f \<Rightarrow> Inl f
       | Inr sw3 \<Rightarrow>
           if ?E < length (a @ b) then writeChunk env (drop ?E (a @ b)) sw3 else Inr sw3)"
      using writeChunk_unfold [of env "a @ b" s w] M by simp
    have ua: "writeChunk env a (s, w) =
      (case writeStep env a (s, w) of
         Inl f \<Rightarrow> Inl f
       | Inr sw3 \<Rightarrow>
           if ?E < length a then writeChunk env (drop ?E a) sw3 else Inr sw3)"
      using writeChunk_unfold [of env a s w] M by simp
    show ?thesis
    proof (cases "?E \<le> length a")
      case long: True
      note st = writeStep_append_long [OF long, of env b w]
      show ?thesis
      proof (cases "writeStep env a (s, w)")
        case (Inl f)
        then show ?thesis by (simp add: uab ua st)
      next
        case (Inr sw3)
        obtain s3 w3 where sw3: "sw3 = (s3, w3)" by (cases sw3)
        note ws = Inr [unfolded sw3]
        from writeStep_frame [OF ws] long
        have w3: "written s3 = (written s + ?E) mod 2 ^ 64" by (simp add: min_def)
        have "written s + ?E < 2 ^ 64" using nw long by simp
        with w3 have w3': "written s3 = written s + ?E" by simp
        have lt: "?E < length (a @ b)" using long b by (cases b) simp_all
        have L: "writeChunk env (a @ b) (s, w) = writeChunk env (drop ?E a @ b) (s3, w3)"
          using lt long by (simp add: uab st ws)
        show ?thesis
        proof (cases "?E < length a")
          case True
          have l: "length (drop ?E a) < length a" using True E by simp
          have ne: "drop ?E a \<noteq> []" using True by simp
          have nw': "written s3 + length (drop ?E a) + length b < 2 ^ 64"
            using nw True w3' by simp
          from less.hyps [OF l rel ne b nw'] True show ?thesis
            by (simp add: L ua ws)
        next
          case False
          with long have "drop ?E a = []" by simp
          with False show ?thesis by (simp add: L ua ws)
        qed
      qed
    next
      case False
      then have short: "length a < ?E" by simp
      have nwa: "written s + length a < 2 ^ 64" using nw by simp
      note st = writeStep_append_short [OF rel M a short nwa, of b w]
      show ?thesis
      proof (cases "writeStep env a (s, w)")
        case (Inl f)
        then show ?thesis by (simp add: uab ua st)
      next
        case (Inr sw3)
        obtain s3 w3 where sw3: "sw3 = (s3, w3)" by (cases sw3)
        note ws = Inr [unfolded sw3]
        from writeStep_frame [OF ws] short
        have m3: "maxSize s3 = maxSize s"
          and w3: "written s3 = (written s + length a) mod 2 ^ 64"
          by (simp_all add: min_def)
        from w3 nwa have w3': "written s3 = written s + length a" by simp
        have pos: "0 < maxSize s" "0 < length a" using M a by simp_all
        note mb = mid_not_boundary [OF pos short]
        have E3: "maxSize s3 - written s3 mod maxSize s3 = ?E - length a"
          using mb(2) by (simp add: m3 w3')
        have M3: "maxSize s3 \<noteq> 0" using M m3 by simp
        have ub: "writeChunk env b (s3, w3) =
          (case writeStep env b (s3, w3) of
             Inl f \<Rightarrow> Inl f
           | Inr sw4 \<Rightarrow>
               if ?E - length a < length b
               then writeChunk env (drop (?E - length a) b) sw4 else Inr sw4)"
          using writeChunk_unfold [of env b s3 w3] M3 unfolding E3 by simp
        have c: "?E < length (a @ b) \<longleftrightarrow> ?E - length a < length b"
          using short by auto
        have d: "drop ?E (a @ b) = drop (?E - length a) b"
          using short by simp
        note uab' = uab [unfolded c d]
        show ?thesis
          using short by (simp add: uab' ua st ws ub)
      qed
    qed
  qed
qed

lemma Writes_concat:
  assumes "reliableWrites env" and "ps \<noteq> []" and "\<forall>p \<in> set ps. p \<noteq> []"
    and "written s + length (concat ps) < 2 ^ 64"
  shows "Writes env ps (s, w) = writeChunk env (concat ps) (s, w)"
  using assms
proof (induction ps arbitrary: s w)
  case Nil
  then show ?case by simp
next
  case (Cons p ps)
  note rel = Cons.prems(1) and ne = Cons.prems(3) and nw = Cons.prems(4)
  have one: "Writes env (p # ps) (s, w) =
      (case writeChunk env p (s, w) of Inl f \<Rightarrow> Inl f | Inr sw' \<Rightarrow> Writes env ps sw')"
    by (simp add: Write_def split: sum.splits)
  show ?case
  proof (cases "ps = []")
    case True
    then show ?thesis by (simp add: Write_def split: sum.splits)
  next
    case False
    from ne have p: "p \<noteq> []" and ne': "\<forall>p \<in> set ps. p \<noteq> []" by simp_all
    from False ne' have c: "concat ps \<noteq> []" by (cases ps) auto
    have nw3: "written s + length p + length (concat ps) < 2 ^ 64" using nw by simp
    have "Writes env ps sw' = writeChunk env (concat ps) sw'"
      if "writeChunk env p (s, w) = Inr sw'" for sw'
    proof -
      obtain s' w' where sw': "sw' = (s', w')" by (cases sw')
      have "written s + length p < 2 ^ 64" using nw by simp
      from writeChunk_frame [OF that [unfolded sw'] this]
      have "written s' = written s + length p" by simp
      with nw have "written s' + length (concat ps) < 2 ^ 64" by simp
      from Cons.IH [OF rel False ne' this] show ?thesis by (simp add: sw')
    qed
    then have "Writes env (p # ps) (s, w) =
      (case writeChunk env p (s, w) of
         Inl f \<Rightarrow> Inl f
       | Inr sw' \<Rightarrow> writeChunk env (concat ps) sw')"
      unfolding one by (cases "writeChunk env p (s, w)") simp_all
    also have "\<dots> = writeChunk env (p @ concat ps) (s, w)"
      by (rule writeChunk_append [OF rel p c nw3, symmetric])
    finally show ?thesis by simp
  qed
qed

lemma reliableWrites_quiet: "reliableWrites (quiet env)"
  by (simp add: reliableWrites_def quiet_def)

lemma hash_Sum_quiet: "hash_Sum (quiet env) h = hash_Sum env h"
  by (cases h) (simp_all add: quiet_def)

lemma writeHashes_quiet: "writeHashes (quiet env) hs s = writeHashes env hs s"
  by (induction hs arbitrary: s) (simp_all add: hash_Sum_quiet split: sum.splits)

lemma sink_WriteHeader_quiet: "sink_WriteHeader (quiet env) t c = sink_WriteHeader env t c"
  by (simp add: sink_WriteHeader_def quiet_def)

lemma sink_Close_quiet: "sink_Close (quiet env) t c w = sink_Close env t c w"
  by (simp add: sink_Close_def quiet_def)

lemma releaseCurrent_quiet: "releaseCurrent (quiet env) sw = releaseCurrent env sw"
  unfolding releaseCurrent_def writeHashes_quiet sink_WriteHeader_quiet sink_Close_quiet
  by (rule refl)

lemma finalizeParent_quiet: "finalizeParent (quiet env) s = finalizeParent env s"
  unfolding finalizeParent_def writeHashes_quiet by (rule refl)

lemma release_quiet: "release (quiet env) c sw = release env c sw"
proof (cases sw)
  case (Pair s w)
  show ?thesis
  proof (cases c)
    case True
    have "release (quiet env) True (s, w) = release env True (s, w)"
      unfolding release_True releaseCurrent_quiet finalizeParent_quiet
      by (rule refl)
    with True show ?thesis by (simp add: Pair)
  next
    case False
    then show ?thesis by (simp add: release_False releaseCurrent_quiet)
  qed
qed

lemma atBoundary_quiet: "atBoundary (quiet env) sw = atBoundary env sw"
  unfolding atBoundary_def release_quiet by (rule refl)

lemma chunkWriter_Write_quiet:
  "chunkWriter_Write env p sw = Inr r \<Longrightarrow> chunkWriter_Write (quiet env) p sw = Inr r"
  by (cases sw)
     (auto simp add: chunkWriter_Write_def sink_Write_def quiet_def
        split: option.splits sum.splits)

lemma writeStep_quiet:
  assumes "writeStep env x sw = Inr r"
  shows "writeStep (quiet env) x sw = Inr r"
proof -
  from assms obtain s1 w1 where ab: "atBoundary env sw = Inr (s1, w1)"
    by (auto simp add: writeStep_def split: sum.splits)
  let ?p = "take (min (length x) (maxSize s1 - written s1 mod maxSize s1)) x"
  from assms ab obtain sw2 where M: "maxSize s1 \<noteq> 0"
    and cw: "chunkWriter_Write env ?p (s1, w1) = Inr sw2"
    by (auto simp add: writeStep_def Let_def split: sum.splits if_splits)
  from chunkWriter_Write_quiet [OF cw]
  have cw': "chunkWriter_Write (quiet env) ?p (s1, w1) = Inr sw2" .
  from assms show ?thesis
    by (simp add: writeStep_def atBoundary_quiet ab M Let_def cw cw')
qed

lemma writeChunk_quiet:
  assumes "writeChunk env x (s, w) = Inr r"
  shows "writeChunk (quiet env) x (s, w) = Inr r"
  using assms
proof (induction "length x" arbitrary: x s w rule: less_induct)
  case less
  note wc = less.prems
  from wc have M: "maxSize s \<noteq> 0"
    by (subst (asm) writeChunk_unfold) (auto split: if_splits)
  let ?E = "maxSize s - written s mod maxSize s"
  have E: "0 < ?E" using M by simp
  have u: "writeChunk e x (s, w) =
      (case writeStep e x (s, w) of
         Inl f \<Rightarrow> Inl f
       | Inr sw3 \<Rightarrow>
           if ?E < length x then writeChunk e (drop ?E x) sw3 else Inr sw3)" for e
    using writeChunk_unfold [of e x s w] M by simp
  from wc obtain s3 w3 where
    ws: "writeStep env x (s, w) = Inr (s3, w3)"
    and rest: "(if ?E < length x then writeChunk env (drop ?E x) (s3, w3)
               else Inr (s3, w3)) = Inr r"
    unfolding u by (cases "writeStep env x (s, w)") auto
  note ws' = writeStep_quiet [OF ws]
  show ?case
  proof (cases "?E < length x")
    case True
    with rest have wc': "writeChunk env (drop ?E x) (s3, w3) = Inr r" by simp
    have "length (drop ?E x) < length x" using True E by simp
    from less.hyps [OF this wc'] True show ?thesis
      by (simp add: u ws')
  next
    case False
    with rest show ?thesis by (simp add: u ws')
  qed
qed

lemma Writes_quiet:
  "Writes env ps sw = Inr r \<Longrightarrow> Writes (quiet env) ps sw = Inr r"
proof (induction ps arbitrary: sw)
  case Nil
  then show ?case by simp
next
  case (Cons p ps)
  obtain s w where sw: "sw = (s, w)" by (cases sw)
  from Cons.prems obtain sw1 where
    wc: "writeChunk env p (s, w) = Inr sw1" and rest: "Writes env ps sw1 = Inr r"
    by (auto simp add: sw Write_def split: sum.splits)
  from writeChunk_quiet [OF wc] Cons.IH [OF rest] show ?case
    by (simp add: sw Write_def)
qed

lemma stream_quiet:
  assumes "stream env M ti hdr ps = Inr r"
  shows "stream (quiet env) M ti hdr ps = Inr r"
proof -
  from assms obtain sw1 where
    a: "Writes env ps (WriteHeader hdr (NewPayloadSizeLimiter M ti), emptyWorld) = Inr sw1"
    and b: "Close env sw1 = Inr r"
    by (auto simp add: stream_def split: sum.splits)
  from Writes_quiet [OF a] b show ?thesis
    by (simp add: stream_def Close_def release_quiet)
qed

lemma stream_granularity:
  assumes rel: "reliableWrites env" and eq: "concat ps = concat qs"
    and ps: "\<forall>p \<in> set ps. p \<noteq> []" and qs: "\<forall>q \<in> set qs. q \<noteq> []"
    and len: "length (concat ps) < 2 ^ 64"
  shows "stream env M ti hdr ps = stream env M ti hdr qs"
proof -
  let ?s0 = "WriteHeader hdr (NewPayloadSizeLimiter M ti)"
  have w0: "written ?s0 = 0" by (simp add: WriteHeader_def NewPayloadSizeLimiter_def)
  have "Writes env ps (?s0, emptyWorld) = Writes env qs (?s0, emptyWorld)"
  proof (cases "concat ps = []")
    case True
    with ps have "ps = []" by (cases ps) auto
    moreover from True eq qs have "qs = []" by (cases qs) auto
    ultimately show ?thesis by simp
  next
    case False
    then have p: "ps \<noteq> []" by auto
    from False eq have q: "qs \<noteq> []" by auto
    have "Writes env ps (?s0, emptyWorld) = writeChunk env (concat ps) (?s0, emptyWorld)"
      using len by (intro Writes_concat [OF rel p ps]) (simp add: w0)
    moreover
    have "Writes env qs (?s0, emptyWorld) = writeChunk env (concat qs) (?s0, emptyWorld)"
      using len eq by (intro Writes_concat [OF rel q qs]) (simp add: w0)
    ultimately show ?thesis by (simp add: eq)
  qed
  then show ?thesis by (simp add: stream_def)
qed

section \<open>What Close returns\<close>

text \<open>
  Claim C1, as the code has it. \<open>Close\<close> returns the identifiers that the sink returned
  for the last object that carries payload, the object \<open>Close\<close> itself releases: the
  single object when one object was emitted, and the last one of the chain, not the
  linking object, when several were. The identifiers of the linking object are dropped.
\<close>

theorem Close_returns_last_chunk:
  assumes "stream env M (Some newTarget) hdr ps = Inr (ids, s, w)"
  shows "chunksOf w \<noteq> [] \<and> ids = eIDs (last (chunksOf w))"
  using assms
proof (cases rule: stream_shape)
  case (single e h)
  then show ?thesis by (simp add: chunksOf_single)
next
  case (multi es e l h p lh pp)
  then show ?thesis by (simp add: chunksOf_multi)
qed

text \<open>The theorem on a payload of two bytes cut at one byte.\<close>

theorem Close_returns_last_chunk_witness:
  "(case stream plainEnv 1 (Some newTarget) hdr0 [[1, 2]] of
      Inl f \<Rightarrow> False
    | Inr (ids, s, w) \<Rightarrow> chunksOf w \<noteq> [] \<and> ids = eIDs (last (chunksOf w)))"
proof -
  obtain ids s w where r: "stream plainEnv 1 (Some newTarget) hdr0 [[1, 2]] = Inr (ids, s, w)"
    by (simp add: evals)
  from Close_returns_last_chunk [OF r] show ?thesis
    unfolding r by simp
qed

text \<open>
  Claim C1 as stated fails: for two bytes cut at one byte, \<open>Close\<close> returns the
  identifier \<open>101\<close> of the second object, while the linking object, the one that lists the
  children \<open>100\<close> and \<open>101\<close>, got the identifier \<open>102\<close>.
\<close>

theorem Close_returns_linking_counterexample:
  "(case stream plainEnv 1 (Some newTarget) hdr0 [[1, 2]] of
      Inl f \<Rightarrow> False
    | Inr (ids, s, w) \<Rightarrow>
        SelfID ids = 101 \<and>
        map (\<lambda>e. SelfID (eIDs e)) (emitted w) = [100, 101, 102] \<and>
        map_option GetChildren (eHeader (last (emitted w))) = Some [100, 101])"
  by (simp add: evals)

section \<open>Parent and linking object\<close>



section \<open>The chain of previous-references and the linking object\<close>

text \<open>
  Claim C7. In a finished stream with more than one object carrying payload, the header of
  the first object has no previous-reference; the header of every later object refers to
  the identifier the sink returned for the object before it; and the linking object lists
  the identifiers of all these objects in the order of emission, its parent being a fresh
  object that carries only the identifier of the parent, read from the header of the last
  object as its sink left it.
\<close>

theorem split_chain_links:
  assumes "stream env M (Some newTarget) hdr ps = Inr (ids, s, w)"
    and "1 < length (chunksOf w)"
  shows "(\<exists>h. eHeader (chunksOf w ! 0) = Some h \<and> GetPreviousID h = None) \<and>
    (\<forall>i. 0 < i \<and> i < length (chunksOf w) \<longrightarrow>
       (\<exists>h. eHeader (chunksOf w ! i) = Some h \<and>
          GetPreviousID h = Some (SelfID (eIDs (chunksOf w ! (i - 1)))))) \<and>
    (\<exists>l lh pp. linkingOf w = Some l \<and> eHeader l = Some lh \<and>
       GetChildren lh = map (\<lambda>e. SelfID (eIDs e)) (chunksOf w) \<and>
       GetParent (eLeft (last (chunksOf w))) = Some pp \<and>
       GetParent lh = Some (SetID (GetID pp) NewRaw))"
  using assms(1)
proof (cases rule: stream_shape)
  case (single e h)
  with assms(2) show ?thesis by (simp add: chunksOf_single)
next
  case (multi es e l h p lh pp)
  from chunksOf_multi [OF multi(1,2)]
  have c: "chunksOf w = es @ [e]" and k: "linkingOf w = Some l" by simp_all
  have ch: "chained None (chunksOf w)" using multi(4) by (simp add: c)
  have ne: "0 < length (chunksOf w)" by (simp add: c)
  have first: "\<exists>h. eHeader (chunksOf w ! 0) = Some h \<and> GetPreviousID h = None"
    using chained_nth [OF ch ne] by simp
  have later: "\<exists>h. eHeader (chunksOf w ! i) = Some h \<and>
          GetPreviousID h = Some (SelfID (eIDs (chunksOf w ! (i - 1))))"
    if "0 < i \<and> i < length (chunksOf w)" for i
    using chained_nth [OF ch, of i] that by simp
  have link: "\<exists>l lh pp. linkingOf w = Some l \<and> eHeader l = Some lh \<and>
       GetChildren lh = map (\<lambda>e. SelfID (eIDs e)) (chunksOf w) \<and>
       GetParent (eLeft (last (chunksOf w))) = Some pp \<and>
       GetParent lh = Some (SetID (GetID pp) NewRaw)"
    using multi by (simp add: c k)
  from first later link show ?thesis by blast
qed

text \<open>
  The theorem on three bytes cut at one byte, with sinks that sign the parent: the linking
  object refers to the parent by the identifier \<open>55\<close> that the sink of the last object
  wrote.
\<close>

theorem split_chain_links_witness:
  "(case stream signingEnv 1 (Some newTarget) hdr0 [[1, 2, 3]] of
      Inl f \<Rightarrow> False
    | Inr (ids, s, w) \<Rightarrow>
        map (\<lambda>e. SelfID (eIDs e)) (chunksOf w) = [100, 101, 102] \<and>
        map (\<lambda>e. map_option GetPreviousID (eHeader e)) (chunksOf w)
          = [Some None, Some (Some 100), Some (Some 101)] \<and>
        (\<exists>h. eHeader (chunksOf w ! 0) = Some h \<and> GetPreviousID h = None) \<and>
        (\<forall>i. 0 < i \<and> i < length (chunksOf w) \<longrightarrow>
           (\<exists>h. eHeader (chunksOf w ! i) = Some h \<and>
              GetPreviousID h = Some (SelfID (eIDs (chunksOf w ! (i - 1)))))) \<and>
        (\<exists>l lh pp. linkingOf w = Some l \<and> eHeader l = Some lh \<and>
           GetChildren lh = [100, 101, 102] \<and>
           GetParent (eLeft (last (chunksOf w))) = Some pp \<and> GetID pp = Some 55 \<and>
           GetParent lh = Some (SetID (GetID pp) NewRaw)))"
proof -
  obtain ids s w where r: "stream signingEnv 1 (Some newTarget) hdr0 [[1, 2, 3]] = Inr (ids, s, w)"
    and n: "1 < length (chunksOf w)"
    and i: "map (\<lambda>e. SelfID (eIDs e)) (chunksOf w) = [100, 101, 102]"
    and p: "map (\<lambda>e. map_option GetPreviousID (eHeader e)) (chunksOf w)
          = [Some None, Some (Some 100), Some (Some 101)]"
    and q: "map_option GetID (GetParent (eLeft (last (chunksOf w)))) = Some (Some 55)"
    by (simp add: evals chunksOf_def)
  from split_chain_links [OF r n] i p q show ?thesis
    unfolding r by auto
qed

section \<open>The number of objects\<close>




section \<open>The sizes of the objects\<close>




section \<open>The checksums of the parent\<close>

text \<open>
  The parent that \<open>Close\<close> attaches to the last object is the header of the first object
  as its sink left it, with the payload size set to the number of bytes written.
  \<open>initialize\<close> makes \<open>s.parent\<close> the pointer to the first object's header, and the
  closures of \<open>parentHashers\<close> write the digests of the whole payload into \<open>s.current\<close>,
  the last object, where the closures of \<open>currentHashers\<close> overwrite them. So the parent
  keeps the digests of the first object.
\<close>

lemma parent_header_of_split:
  assumes st: "stream env M (Some newTarget) hdr ps = Inr (ids, s, w)"
    and len: "length (concat ps) < 2 ^ 64" and ok: "offBoundary M 0 ps"
    and more: "1 < length (chunksOf w)"
  shows "\<exists>h. eHeader (last (chunksOf w)) = Some h \<and>
           GetParent h = Some (SetPayloadSize (length (concat ps)) (eLeft (hd (chunksOf w))))"
proof -
  let ?s0 = "WriteHeader hdr (NewPayloadSizeLimiter M (Some newTarget))"
  from stream_Inr_pos [OF st] have M: "0 < M" by simp
  from st obtain s1 w1 where
    a: "Writes env ps (?s0, emptyWorld) = Inr (s1, w1)"
    and b: "Close env (s1, w1) = Inr (ids, s, w)"
    by (auto simp add: stream_def split: sum.splits)
  from Writes_inv [OF inv_initial M _ _ a] len ok
  have i: "inv env M hdr (concat ps) (s1, w1)" by simp
  then have out: "invOut env M (s1, w1)" and tgt: "invTgt M (concat ps) (s1, w1)"
    and cur: "invCur hdr (s1, w1)" and cfg: "targetInit s1 = Some newTarget"
    by (simp_all add: inv_def invCfg_def)
  from out have prev: "previous s1 = map (\<lambda>e. SelfID (eIDs e)) (emitted w1)"
    by (simp add: invOut_def)
  from tgt have wr: "written s1 = length (concat ps)" by (simp add: invTgt_def)
  show ?thesis
  proof (cases "emitted w1 = []")
    case True
    with prev have p0: "previous s1 = []" by simp
    obtain t c0 c c2 where
      "target s1 = Some t" and "current s1 = Some c0" and "sameLinks c0 c"
      and em: "emitted w = emitted w1 @
       [\<lparr>eSink = sinkNo t, eHeader = Some c, ePayload = sinkPayload t, eIDs = ids, eLeft = c2\<rparr>]"
      and "previous s = [SelfID ids]"
      by (rule Close_single [OF p0 b])
    with True more show ?thesis by (simp add: chunksOf_def)
  next
    case False
    with prev have p0: "previous s1 \<noteq> []" by simp
    from cur False have par: "parent s1 = Some (eLeft (hd (emitted w1)))"
      by (auto simp add: invCur_def)
    obtain t c0 p0' c c2 pp lh ids' l2 where
      "target s1 = Some t" and "current s1 = Some c0" and pp: "parent s1 = Some p0'"
      and gp: "GetParent c = Some (SetPayloadSize (written s1) p0')"
      and "GetPreviousID c = GetPreviousID c0"
      and "GetParent c2 = Some pp"
      and "GetChildren lh = previous s1 @ [SelfID ids]"
      and "GetParent lh = Some (SetID (GetID pp) NewRaw)"
      and em: "emitted w = emitted w1 @
       [\<lparr>eSink = sinkNo t, eHeader = Some c, ePayload = sinkPayload t, eIDs = ids, eLeft = c2\<rparr>,
        \<lparr>eSink = created w1, eHeader = Some lh, ePayload = [], eIDs = ids', eLeft = l2\<rparr>]"
      and "previous s = previous s1 @ [SelfID ids, SelfID ids']"
      by (rule Close_multi [OF p0 cfg b])
    let ?e = "\<lparr>eSink = sinkNo t, eHeader = Some c, ePayload = sinkPayload t, eIDs = ids,
               eLeft = c2\<rparr>"
    from em False have c: "chunksOf w = emitted w1 @ [?e]"
      by (simp add: chunksOf_def butlast_append)
    from par pp have "p0' = eLeft (hd (emitted w1))" by simp
    with gp wr False show ?thesis
      by (simp add: c)
  qed
qed

text \<open>
  Claim C5 against the code, at two bytes cut at one byte: the parent attached to the last
  object carries the digests of the first byte alone, not those of both bytes. Its payload
  size is the number of bytes written.
\<close>

theorem parent_checksums_of_first_chunk:
  "(case stream plainEnv 1 (Some newTarget) hdr0 [[1, 2]] of
      Inl f \<Rightarrow> False
    | Inr (ids, s, w) \<Rightarrow>
        map ePayload (chunksOf w) = [[1], [2]] \<and>
        (case eHeader (last (chunksOf w)) of
           None \<Rightarrow> False
         | Some h \<Rightarrow>
             (case GetParent h of
                None \<Rightarrow> False
              | Some p \<Rightarrow>
                  GetPayloadChecksum p = Some (SHA256 (sha256_Sum plainEnv [1])) \<and>
                  GetPayloadHomomorphicHash p = Some (TillichZemor (tz_Sum plainEnv [1])) \<and>
                  GetPayloadChecksum p \<noteq> Some (SHA256 (sha256_Sum plainEnv [1, 2])) \<and>
                  GetPayloadHomomorphicHash p \<noteq> Some (TillichZemor (tz_Sum plainEnv [1, 2])) \<and>
                  GetPayloadSize p = 2)))"
  by (simp add: evals chunksOf_def) (simp add: numeral_eq_Suc)

section \<open>Digest lengths\<close>

text \<open>
  Claim C9. When an object is released with the hashers of \<open>initializeCurrent\<close>, a SHA-256
  digest that is not 32 bytes long, or a Tillich-Zemor digest that is not 64 bytes long,
  makes \<open>release\<close> panic; the panic is not an error value. With digest functions that
  return 32 and 64 bytes, no stream ends in this panic. And every object that a completed
  stream has emitted carries in its header the SHA-256 digest of its payload, 32 bytes
  long, and the Tillich-Zemor digest of its payload, 64 bytes long.
\<close>

theorem digest_length_panic:
  "(currentHashers s = hashersOf bs \<longrightarrow> length (sha256_Sum env bs) \<noteq> 32 \<longrightarrow>
      release env False (s, w)
        = Inl (Panic (WrongChecksumLength (length (sha256_Sum env bs)) 32))) \<and>
   (currentHashers s = hashersOf bs \<longrightarrow> current s \<noteq> None \<longrightarrow>
      length (sha256_Sum env bs) = 32 \<longrightarrow> length (tz_Sum env bs) \<noteq> 64 \<longrightarrow>
      release env False (s, w)
        = Inl (Panic (WrongChecksumLength (length (tz_Sum env bs)) 64))) \<and>
   (goodDigests env \<longrightarrow>
      (\<forall>a b. stream env M (Some newTarget) hdr ps \<noteq> Inl (Panic (WrongChecksumLength a b)))) \<and>
   (stream env M (Some newTarget) hdr ps = Inr (ids, s', w') \<longrightarrow>
      (\<forall>e \<in> set (emitted w'). checksummed env e))"
proof (intro conjI impI allI)
  assume "currentHashers s = hashersOf bs" "length (sha256_Sum env bs) \<noteq> 32"
  then show "release env False (s, w)
        = Inl (Panic (WrongChecksumLength (length (sha256_Sum env bs)) 32))"
    by (simp add: release_False releaseCurrent_def hashersOf_def)
next
  assume "currentHashers s = hashersOf bs" "current s \<noteq> None"
    "length (sha256_Sum env bs) = 32" "length (tz_Sum env bs) \<noteq> 64"
  then show "release env False (s, w)
        = Inl (Panic (WrongChecksumLength (length (tz_Sum env bs)) 64))"
    by (auto simp add: release_False releaseCurrent_def hashersOf_def)
next
  fix a b
  assume g: "goodDigests env"
  let ?s0 = "WriteHeader hdr (NewPayloadSizeLimiter M (Some newTarget))"
  have l0: "linv env hdr (?s0, emptyWorld)" by (rule linv_initial)
  show "stream env M (Some newTarget) hdr ps \<noteq> Inl (Panic (WrongChecksumLength a b))"
  proof
    assume f: "stream env M (Some newTarget) hdr ps = Inl (Panic (WrongChecksumLength a b))"
    show False
    proof (cases "Writes env ps (?s0, emptyWorld)")
      case (Inl g')
      with f have "g' = Panic (WrongChecksumLength a b)" by (simp add: stream_def)
      with Writes_no_checksumPanic [OF g l0 Inl] show False by simp
    next
      case (Inr sw1)
      obtain s1 w1 where sw1: "sw1 = (s1, w1)" by (cases sw1)
      from linv_Writes [OF l0 Inr [unfolded sw1]] have l1: "linv env hdr (s1, w1)" by simp
      from f Inr sw1 have "Close env (s1, w1) = Inl (Panic (WrongChecksumLength a b))"
        by (simp add: stream_def)
      from Close_no_checksumPanic [OF g l1 this] show False by simp
    qed
  qed
next
  assume st: "stream env M (Some newTarget) hdr ps = Inr (ids, s', w')"
  from st obtain s1 w1 where cl: "Close env (s1, w1) = Inr (ids, s', w')"
    and l: "linv env hdr (s1, w1)"
    by (rule stream_Inr)
  from Close_checksummed [OF l cl]
  show "\<forall>e \<in> set (emitted w'). checksummed env e" .
qed

text \<open>
  The theorem on a state whose current object holds the byte \<open>1\<close>, with a SHA-256 that
  returns no byte and with a Tillich-Zemor that returns one byte; and on the plain
  collaborators, whose digests have the right sizes.
\<close>

theorem digest_length_panic_witness:
  "release (plainEnv\<lparr>sha256_Sum := (\<lambda>bs. [])\<rparr>) False
     ((WriteHeader hdr0 (NewPayloadSizeLimiter 1 (Some newTarget)))
        \<lparr>currentHashers := hashersOf [1]\<rparr>, emptyWorld)
     = Inl (Panic (WrongChecksumLength 0 32)) \<and>
   release (plainEnv\<lparr>tz_Sum := (\<lambda>bs. [7])\<rparr>) False
     ((WriteHeader hdr0 (NewPayloadSizeLimiter 1 (Some newTarget)))
        \<lparr>currentHashers := hashersOf [1]\<rparr>, emptyWorld)
     = Inl (Panic (WrongChecksumLength 1 64)) \<and>
   stream (plainEnv\<lparr>sha256_Sum := (\<lambda>bs. [])\<rparr>) 1 (Some newTarget) hdr0 [[1]]
     = Inl (Panic (WrongChecksumLength 0 32)) \<and>
   goodDigests plainEnv \<and>
   (\<forall>a b. stream plainEnv 1 (Some newTarget) hdr0 [[1, 2]]
      \<noteq> Inl (Panic (WrongChecksumLength a b))) \<and>
   (case stream plainEnv 1 (Some newTarget) hdr0 [[1, 2]] of
      Inl f \<Rightarrow> False
    | Inr (ids, s, w) \<Rightarrow>
        length (emitted w) = 3 \<and> (\<forall>e \<in> set (emitted w). checksummed plainEnv e))"
proof -
  let ?S = "(WriteHeader hdr0 (NewPayloadSizeLimiter 1 (Some newTarget)))
        \<lparr>currentHashers := hashersOf [1]\<rparr>"
  have g: "goodDigests plainEnv"
    by (auto simp add: goodDigests_def plainEnv_def min_def)
  have a: "release (plainEnv\<lparr>sha256_Sum := (\<lambda>bs. [])\<rparr>) False (?S, emptyWorld)
     = Inl (Panic (WrongChecksumLength 0 32))"
    using digest_length_panic
      [of ?S "[1]" "plainEnv\<lparr>sha256_Sum := (\<lambda>bs. [])\<rparr>" emptyWorld]
    by simp
  have b: "release (plainEnv\<lparr>tz_Sum := (\<lambda>bs. [7])\<rparr>) False (?S, emptyWorld)
     = Inl (Panic (WrongChecksumLength 1 64))"
    using digest_length_panic
      [of ?S "[1]" "plainEnv\<lparr>tz_Sum := (\<lambda>bs. [7])\<rparr>" emptyWorld]
    by (simp add: plainEnv_def WriteHeader_def)
  have c: "stream (plainEnv\<lparr>sha256_Sum := (\<lambda>bs. [])\<rparr>) 1 (Some newTarget) hdr0 [[1]]
     = Inl (Panic (WrongChecksumLength 0 32))"
    by (simp add: evals)
  obtain ids s w where r: "stream plainEnv 1 (Some newTarget) hdr0 [[1, 2]] = Inr (ids, s, w)"
    and n: "length (emitted w) = 3"
    by (simp add: evals)
  from digest_length_panic [of _ _ plainEnv _ 1 hdr0 "[[1, 2]]" ids s w] g r
  have d: "\<forall>a b. stream plainEnv 1 (Some newTarget) hdr0 [[1, 2]]
      \<noteq> Inl (Panic (WrongChecksumLength a b))"
    and e: "\<forall>e \<in> set (emitted w). checksummed plainEnv e"
    by blast+
  from a b c g d e n show ?thesis
    unfolding r by simp
qed

section \<open>Construction\<close>

text \<open>
  Claim C8, as the code has it. \<open>NewPayloadSizeLimiter\<close> validates nothing: whatever the
  maximum size and whether or not a sink factory is given, it returns a splitter that holds
  them as they came. A zero maximum size or an absent factory shows at the first \<open>Write\<close>
  only, as a panic: a division by zero for a zero maximum size, a nil call for an absent
  factory.
\<close>

theorem NewPayloadSizeLimiter_no_validation:
  "maxSize (NewPayloadSizeLimiter mx ti) = mx \<and>
   targetInit (NewPayloadSizeLimiter mx ti) = ti \<and>
   (mx = 0 \<longrightarrow>
      Write env p (WriteHeader hdr (NewPayloadSizeLimiter mx ti), w) = Inl (Panic DivideByZero)) \<and>
   (mx \<noteq> 0 \<longrightarrow> ti = None \<longrightarrow>
      Write env p (WriteHeader hdr (NewPayloadSizeLimiter mx ti), w) = Inl (Panic NilDereference))"
proof (intro conjI impI)
  let ?s = "WriteHeader hdr (NewPayloadSizeLimiter mx ti)"
  show "maxSize (NewPayloadSizeLimiter mx ti) = mx"
    by (simp add: NewPayloadSizeLimiter_def)
  show "targetInit (NewPayloadSizeLimiter mx ti) = ti"
    by (simp add: NewPayloadSizeLimiter_def)
  show "Write env p (?s, w) = Inl (Panic DivideByZero)" if "mx = 0"
    using that
    by (simp add: Write_def writeChunk_unfold WriteHeader_def NewPayloadSizeLimiter_def)
  show "Write env p (?s, w) = Inl (Panic NilDereference)" if "mx \<noteq> 0" and "ti = None"
  proof -
    have "atBoundary env (?s, w) = Inl (Panic NilDereference)"
      using that
      by (simp add: atBoundary_def initialize_def initializeCurrent_def WriteHeader_def
            NewPayloadSizeLimiter_def)
    then have "writeStep env p (?s, w) = Inl (Panic NilDereference)"
      by (simp add: writeStep_def)
    with that show ?thesis
      by (simp add: Write_def writeChunk_unfold)
         (simp add: WriteHeader_def NewPayloadSizeLimiter_def)
  qed
qed

text \<open>The theorem at a zero maximum size and at an absent factory.\<close>

theorem NewPayloadSizeLimiter_no_validation_witness:
  "Write plainEnv [1] (WriteHeader hdr0 (NewPayloadSizeLimiter 0 None), emptyWorld)
     = Inl (Panic DivideByZero) \<and>
   Write plainEnv [1] (WriteHeader hdr0 (NewPayloadSizeLimiter 5 None), emptyWorld)
     = Inl (Panic NilDereference)"
  using NewPayloadSizeLimiter_no_validation [of 0 None plainEnv "[1]" hdr0 emptyWorld]
    NewPayloadSizeLimiter_no_validation [of 5 None plainEnv "[1]" hdr0 emptyWorld]
  by simp

text \<open>
  Claim C8 as stated fails: with a zero maximum size and no factory, construction returns
  a splitter, and the splitter takes a header.
\<close>

theorem NewPayloadSizeLimiter_rejects_counterexample:
  "maxSize (NewPayloadSizeLimiter 0 None) = 0 \<and>
   targetInit (NewPayloadSizeLimiter 0 None) = None \<and>
   current (WriteHeader hdr0 (NewPayloadSizeLimiter 0 None)) = Some (fromObject hdr0)"
  by (simp add: NewPayloadSizeLimiter_def WriteHeader_def)

section \<open>Claim C4: the split does not depend on the write granularity\<close>

text \<open>
  Claim C4. Two ways of cutting one payload of fewer than \<open>2 ^ 64\<close> bytes into non-empty
  \<open>Write\<close> calls give the same split. When the sinks accept every write the two streams
  have the same outcome, failures and panics included. Whatever the sinks do, two streams
  that both complete end in the same state: the same number of chunks, the same payload
  bytes and the same SHA-256 and Tillich-Zemor checksums chunk by chunk, the same
  emissions altogether and the same identifiers returned by \<open>Close\<close>. A \<open>Write\<close> of
  the concatenation of non-empty slices is the sequence of the \<open>Write\<close>s of the slices.
\<close>

theorem write_granularity:
  assumes eq: "concat ps = concat qs"
    and ps: "\<forall>p \<in> set ps. p \<noteq> []"
    and qs: "\<forall>q \<in> set qs. q \<noteq> []"
    and len: "length (concat ps) < 2 ^ 64"
  shows "(reliableWrites env \<longrightarrow> stream env M ti hdr ps = stream env M ti hdr qs) \<and>
    (\<forall>ids s w ids' s' w'.
       stream env M ti hdr ps = Inr (ids, s, w) \<longrightarrow>
       stream env M ti hdr qs = Inr (ids', s', w') \<longrightarrow>
         length (chunksOf w) = length (chunksOf w') \<and>
         map ePayload (chunksOf w) = map ePayload (chunksOf w') \<and>
         map (\<lambda>e. map_option GetPayloadChecksum (eHeader e)) (chunksOf w) =
           map (\<lambda>e. map_option GetPayloadChecksum (eHeader e)) (chunksOf w') \<and>
         map (\<lambda>e. map_option GetPayloadHomomorphicHash (eHeader e)) (chunksOf w) =
           map (\<lambda>e. map_option GetPayloadHomomorphicHash (eHeader e)) (chunksOf w') \<and>
         emitted w = emitted w' \<and> ids = ids' \<and> s = s') \<and>
    (reliableWrites env \<longrightarrow> ps \<noteq> [] \<longrightarrow>
       Writes env [concat ps] (WriteHeader hdr (NewPayloadSizeLimiter M ti), emptyWorld) =
       Writes env ps (WriteHeader hdr (NewPayloadSizeLimiter M ti), emptyWorld))"
proof (intro conjI impI allI)
  assume "reliableWrites env"
  from stream_granularity [OF this eq ps qs len]
  show "stream env M ti hdr ps = stream env M ti hdr qs" .
next
  fix ids s w ids' s' w'
  assume p: "stream env M ti hdr ps = Inr (ids, s, w)"
    and q: "stream env M ti hdr qs = Inr (ids', s', w')"
  have "stream (quiet env) M ti hdr ps = stream (quiet env) M ti hdr qs"
    by (rule stream_granularity [OF reliableWrites_quiet eq ps qs len])
  with stream_quiet [OF p] stream_quiet [OF q]
  have same: "ids = ids'" "s = s'" "w = w'" by simp_all
  show "length (chunksOf w) = length (chunksOf w')" by (simp add: same)
  show "map ePayload (chunksOf w) = map ePayload (chunksOf w')" by (simp add: same)
  show "map (\<lambda>e. map_option GetPayloadChecksum (eHeader e)) (chunksOf w) =
        map (\<lambda>e. map_option GetPayloadChecksum (eHeader e)) (chunksOf w')" by (simp add: same)
  show "map (\<lambda>e. map_option GetPayloadHomomorphicHash (eHeader e)) (chunksOf w) =
        map (\<lambda>e. map_option GetPayloadHomomorphicHash (eHeader e)) (chunksOf w')" by (simp add: same)
  show "emitted w = emitted w'" by (simp add: same)
  show "ids = ids'" by (rule same)
  show "s = s'" by (rule same)
next
  let ?s0 = "WriteHeader hdr (NewPayloadSizeLimiter M ti)"
  assume rel: "reliableWrites env" and ne: "ps \<noteq> []"
  have w0: "written ?s0 = 0" by (simp add: WriteHeader_def NewPayloadSizeLimiter_def)
  have "Writes env ps (?s0, emptyWorld) = writeChunk env (concat ps) (?s0, emptyWorld)"
    using len by (intro Writes_concat [OF rel ne ps]) (simp add: w0)
  then show "Writes env [concat ps] (?s0, emptyWorld) = Writes env ps (?s0, emptyWorld)"
    by (simp add: Write_def split: sum.splits)
qed

theorem write_granularity_witness:
  "concat [[1, 2, 3]] = concat [[1], [2], [3 :: byte]] \<and>
   reliableWrites plainEnv \<and>
   stream plainEnv 2 (Some newTarget) hdr0 [[1, 2, 3]] =
     stream plainEnv 2 (Some newTarget) hdr0 [[1], [2], [3]] \<and>
   (case stream plainEnv 2 (Some newTarget) hdr0 [[1], [2], [3]] of
      Inl f \<Rightarrow> False
    | Inr (ids, s, w) \<Rightarrow>
        map ePayload (chunksOf w) = [[1, 2], [3]] \<and> ids = AccessIdentifiers 101)"
proof -
  have rel: "reliableWrites plainEnv" by (simp add: reliableWrites_def plainEnv_def)
  obtain ids s w where r: "stream plainEnv 2 (Some newTarget) hdr0 [[1], [2], [3]] = Inr (ids, s, w)"
    and pl: "map ePayload (chunksOf w) = [[1, 2], [3]]" and i: "ids = AccessIdentifiers 101"
    by (simp add: evals chunksOf_def)
  have "stream plainEnv 2 (Some newTarget) hdr0 [[1, 2, 3]] =
     stream plainEnv 2 (Some newTarget) hdr0 [[1], [2], [3]]"
    using write_granularity [of "[[1, 2, 3]]" "[[1], [2], [3]]" plainEnv 2 "Some newTarget" hdr0]
      rel by simp
  with rel pl i show ?thesis unfolding r by simp
qed

end
